theory Spec2Isabelle
  imports Main "HOL-Library.Word" "HOL-Library.Sublist"
begin

section \<open>The Stats container of src/include/Stats.hpp\<close>

text \<open>
  \<^verbatim>\<open>Stats<T, TIMEOUT, GETTIMESTAMP>\<close> stores (timestamp, value) pairs in an array of
  \<^verbatim>\<open>TIMEOUT\<close> vectors, one per residue of the timestamp modulo \<^verbatim>\<open>TIMEOUT\<close>.
  The template parameter \<^verbatim>\<open>TIMEOUT\<close> (a positive \<^verbatim>\<open>int\<close>) is the first argument
  \<open>W\<close> of every function below. Timestamps are \<^verbatim>\<open>std::uint64_t\<close>, so they are
  64-bit words and \<^verbatim>\<open>max - TIMEOUT\<close> wraps around. The value type \<^verbatim>\<open>T\<close> is any
  linearly ordered type with a zero, the value of \<^verbatim>\<open>T()\<close> for the arithmetic types
  the container is used with.
\<close>

subsection \<open>Data\<close>

type_synonym timestamp_type = "64 word"

type_synonym 'a StatsPair = "timestamp_type \<times> 'a"

type_synonym 'a StatsVector = "'a StatsPair list"

text \<open>\<^verbatim>\<open>StatsVector statsBuckets[TIMEOUT]\<close>: a list of \<open>W\<close> buckets.\<close>

type_synonym 'a Stats = "'a StatsVector list"

text \<open>
  The ways \<^verbatim>\<open>get_p\<close> can go wrong: \<open>out_of_range\<close> is the exception
  \<^verbatim>\<open>std::out_of_range("Stats object is empty")\<close>; \<open>past_the_end\<close> is an access to the
  scratch vector \<^verbatim>\<open>v\<close> at a position that is not smaller than \<^verbatim>\<open>v.size()\<close>, which
  C++ leaves undefined.
\<close>

datatype failure = out_of_range | past_the_end

text \<open>
  \<^verbatim>\<open>struct statsBucketsIterator\<close>. The vector iterator \<^verbatim>\<open>current\<close> designates a
  position in the storage of one bucket: it is the pair of the bucket and the offset
  into it (the offset is the length of the bucket for \<^verbatim>\<open>end()\<close>). The buckets are
  separate vectors, so two such iterators are equal exactly when bucket and offset are.
  The pointer \<^verbatim>\<open>stats\<close> is the container passed to each function.
\<close>

record statsBucketsIterator =
  current :: "nat \<times> nat"
  ts_min :: timestamp_type
  index :: nat
  index_max :: nat

subsection \<open>The iterator\<close>

text \<open>
  The loop of the constructor, lines 100 to 107: \<open>mx\<close> is \<^verbatim>\<open>max\<close>, \<open>im\<close> is
  \<^verbatim>\<open>index_max\<close>, the list holds the values of \<^verbatim>\<open>i\<close> still to visit.
\<close>

fun scan_max :: "'a Stats \<Rightarrow> nat list \<Rightarrow> timestamp_type \<Rightarrow> nat \<Rightarrow> timestamp_type \<times> nat" where
  "scan_max s [] mx im = (mx, im)"
| "scan_max s (i # js) mx im =
     (if s ! i \<noteq> [] \<and> fst (s ! i ! 0) > mx
      then scan_max s js (fst (s ! i ! 0)) i
      else scan_max s js mx im)"

text \<open>
  The constructor. It leaves \<^verbatim>\<open>current\<close> uninitialised; \<^verbatim>\<open>begin\<close> and \<^verbatim>\<open>end\<close>
  set it before it is read, and the model starts it at \<open>(0, 0)\<close>.
\<close>

definition statsBucketsIterator_ctor :: "nat \<Rightarrow> 'a Stats \<Rightarrow> statsBucketsIterator" where
  "statsBucketsIterator_ctor W s =
     (case scan_max s [0..<W] 0 0 of
        (mx, im) \<Rightarrow> \<lparr>current = (0, 0), ts_min = mx - word_of_nat W, index = 0, index_max = im\<rparr>)"

definition next_index :: "nat \<Rightarrow> nat \<Rightarrow> nat" where
  "next_index W i = (i + 1) mod W"

text \<open>
  \<^verbatim>\<open>seek\<close>, lines 130 to 138. \<^verbatim>\<open>current == statsBuckets[index].end()\<close> is reached when
  the offset is the length of the bucket. The loop is not bounded syntactically, so the
  result is an option and \<open>None\<close> stands for a loop that never ends.
\<close>

partial_function (option) seek ::
  "nat \<Rightarrow> 'a Stats \<Rightarrow> statsBucketsIterator \<Rightarrow> statsBucketsIterator option" where
  "seek W s it =
     (if (current it = (index it, length (s ! index it))
          \<or> fst (s ! fst (current it) ! snd (current it)) < ts_min it)
         \<and> index it \<noteq> index_max it
      then seek W s (it\<lparr>index := next_index W (index it), current := (next_index W (index it), 0)\<rparr>)
      else Some it)"

declare seek.simps [code]

definition it_begin :: "nat \<Rightarrow> 'a Stats \<Rightarrow> statsBucketsIterator \<Rightarrow> statsBucketsIterator option" where
  "it_begin W s it =
     seek W s (it\<lparr>index := next_index W (index_max it), current := (next_index W (index_max it), 0)\<rparr>)"

definition it_end :: "'a Stats \<Rightarrow> statsBucketsIterator \<Rightarrow> statsBucketsIterator" where
  "it_end s it = it\<lparr>index := index_max it, current := (index_max it, length (s ! index_max it))\<rparr>"

text \<open>\<^verbatim>\<open>operator++\<close>, \<^verbatim>\<open>operator*\<close> and \<^verbatim>\<open>operator!=\<close>.\<close>

definition it_incr :: "nat \<Rightarrow> 'a Stats \<Rightarrow> statsBucketsIterator \<Rightarrow> statsBucketsIterator option" where
  "it_incr W s it = seek W s (it\<lparr>current := (fst (current it), snd (current it) + 1)\<rparr>)"

definition it_deref :: "'a Stats \<Rightarrow> statsBucketsIterator \<Rightarrow> 'a StatsPair" where
  "it_deref s it = s ! fst (current it) ! snd (current it)"

definition it_neq :: "statsBucketsIterator \<Rightarrow> statsBucketsIterator \<Rightarrow> bool" where
  "it_neq it other = (current it \<noteq> current other)"

subsection \<open>The container\<close>

text \<open>A default-constructed container: \<open>W\<close> empty vectors.\<close>

definition Stats_new :: "nat \<Rightarrow> 'a Stats" where
  "Stats_new W = replicate W []"

definition Stats_begin :: "nat \<Rightarrow> 'a Stats \<Rightarrow> statsBucketsIterator option" where
  "Stats_begin W s = it_begin W s (statsBucketsIterator_ctor W s)"

definition Stats_end :: "nat \<Rightarrow> 'a Stats \<Rightarrow> statsBucketsIterator" where
  "Stats_end W s = it_end s (statsBucketsIterator_ctor W s)"

definition Stats_size :: "nat \<Rightarrow> 'a Stats \<Rightarrow> nat" where
  "Stats_size W s = foldl (\<lambda>sz i. sz + length (s ! i)) 0 [0..<W]"

definition clear :: "nat \<Rightarrow> 'a Stats \<Rightarrow> 'a Stats" where
  "clear W s = foldl (\<lambda>b i. b[i := []]) s [0..<W]"

text \<open>
  \<^verbatim>\<open>add(StatsPair)\<close>, lines 248 to 256. \<^verbatim>\<open>TIMEOUT\<close> is a positive \<^verbatim>\<open>int\<close>, so its
  conversion to \<^verbatim>\<open>uint64_t\<close> for \<^verbatim>\<open>ts % TIMEOUT\<close> keeps its value.
\<close>

definition add :: "nat \<Rightarrow> 'a Stats \<Rightarrow> 'a StatsPair \<Rightarrow> 'a Stats" where
  "add W s statsPair =
     (let ts = fst statsPair;
          i = unat ts mod W;
          bucket = s ! i;
          bucket' = (if bucket \<noteq> [] \<and> ts \<noteq> fst (bucket ! 0) then [] else bucket)
      in s[i := bucket' @ [statsPair]])"

text \<open>
  The loop \<^verbatim>\<open>for (it = first; it != last; ++it)\<close> that \<^verbatim>\<open>std::transform\<close> in
  \<^verbatim>\<open>get_p\<close> and the example programs run over the container, returning the pairs it
  visits in order.
\<close>

partial_function (option) traverse ::
  "nat \<Rightarrow> 'a Stats \<Rightarrow> statsBucketsIterator \<Rightarrow> statsBucketsIterator \<Rightarrow> 'a StatsPair list option" where
  "traverse W s it fin =
     (if it_neq it fin
      then Option.bind (it_incr W s it) (\<lambda>it'.
           Option.bind (traverse W s it' fin) (\<lambda>r. Some (it_deref s it # r)))
      else Some [])"

declare traverse.simps [code]

text \<open>\<^verbatim>\<open>get_all\<close> is \<^verbatim>\<open>begin\<close>; the view is what the loop from there to \<^verbatim>\<open>end\<close> yields.\<close>

definition get_all :: "nat \<Rightarrow> 'a Stats \<Rightarrow> 'a StatsPair list option" where
  "get_all W s = Option.bind (Stats_begin W s) (\<lambda>b. traverse W s b (Stats_end W s))"

text \<open>
  \<^verbatim>\<open>get_p\<close>, lines 310 to 319. \<^verbatim>\<open>v\<close> starts as \<open>sz\<close> copies of \<^verbatim>\<open>T()\<close>, and
  \<^verbatim>\<open>std::transform\<close> overwrites its first positions with the values of the view; it
  would write past the end of \<^verbatim>\<open>v\<close> if the view were longer than \<open>sz\<close>.
  \<^verbatim>\<open>sz * p + 99\<close> is computed in \<^verbatim>\<open>size_type\<close>, modulo \<open>2 ^ 64\<close>.
  \<^verbatim>\<open>std::nth_element\<close> leaves at position \<open>index\<close> the element that a full sort
  would put there, so \<^verbatim>\<open>v[index]\<close> is read from the sorted vector.
\<close>

definition get_p :: "nat \<Rightarrow> ('a :: {linorder, zero}) Stats \<Rightarrow> int \<Rightarrow> (failure + 'a) option" where
  "get_p W s p =
     (let sz = Stats_size W s in
      if sz = 0 then Some (Inl out_of_range)
      else Option.bind (get_all W s) (\<lambda>yielded.
        if sz < length yielded then Some (Inl past_the_end)
        else
          let v = map snd yielded @ replicate (sz - length yielded) 0;
              idx = nat ((int sz * p + 99) mod 2 ^ 64 div 100)
          in if idx < sz then Some (Inr (sort v ! idx)) else Some (Inl past_the_end)))"

definition get_p70 :: "nat \<Rightarrow> ('a :: {linorder, zero}) Stats \<Rightarrow> (failure + 'a) option" where
  "get_p70 W s = get_p W s 70"

subsection \<open>The view as a list function\<close>

text \<open>
  What the loop from \<^verbatim>\<open>begin\<close> to \<^verbatim>\<open>end\<close> computes, written as a list function:
  \<open>fresh\<close> is the negation of the test \<^verbatim>\<open>current->first < ts_min\<close> of \<^verbatim>\<open>seek\<close>;
  \<open>ring\<close> walks \<open>n\<close> buckets from bucket \<open>i\<close>, keeping of each bucket the elements
  before the first one that fails the test; \<open>view\<close> walks the \<open>W - 1\<close> buckets after
  \<^verbatim>\<open>index_max\<close> and ends with the whole bucket \<^verbatim>\<open>index_max\<close>. Theorem
  \<open>get_all_view\<close> below shows that the loop returns this list.
\<close>

definition fresh :: "timestamp_type \<Rightarrow> 'a StatsPair \<Rightarrow> bool" where
  "fresh tmin p = (\<not> fst p < tmin)"

fun ring :: "nat \<Rightarrow> 'a Stats \<Rightarrow> timestamp_type \<Rightarrow> nat \<Rightarrow> nat \<Rightarrow> 'a StatsPair list" where
  "ring W s tmin i 0 = []"
| "ring W s tmin i (Suc n) = takeWhile (fresh tmin) (s ! i) @ ring W s tmin (next_index W i) n"

definition view :: "nat \<Rightarrow> 'a Stats \<Rightarrow> 'a StatsPair list" where
  "view W s =
     (let it = statsBucketsIterator_ctor W s
      in ring W s (ts_min it) (next_index W (index_max it)) (W - 1) @ s ! index_max it)"

text \<open>
  The same list cut into \<open>W\<close> blocks: block \<open>k < W - 1\<close> is what the loop keeps of the
  bucket \<open>k + 1\<close> places after \<^verbatim>\<open>index_max\<close>, block \<open>W - 1\<close> is the bucket
  \<^verbatim>\<open>index_max\<close> itself.
\<close>

definition block :: "nat \<Rightarrow> 'a Stats \<Rightarrow> nat \<Rightarrow> 'a StatsPair list" where
  "block W s k =
     (let it = statsBucketsIterator_ctor W s in
      if k < W - 1 then takeWhile (fresh (ts_min it)) (s ! ((index_max it + Suc k) mod W))
      else s ! index_max it)"

subsection \<open>Reachable states\<close>

text \<open>
  The calls that change a container: \<^verbatim>\<open>add(ts, val)\<close>, which is
  \<^verbatim>\<open>add(std::make_pair(ts, val))\<close>, and \<^verbatim>\<open>clear()\<close>. A reachable state is the state
  \<open>run W cs\<close> of a new container after a list \<open>cs\<close> of calls; \<open>adds W ps\<close> is the state
  after adding the pairs \<open>ps\<close> in order, with no \<^verbatim>\<open>clear\<close>. \<open>added cs\<close> lists the pairs
  that the calls \<open>cs\<close> insert, in the order of their insertion.
\<close>

datatype 'a call = Add timestamp_type 'a | Clear

fun exec :: "nat \<Rightarrow> 'a Stats \<Rightarrow> 'a call \<Rightarrow> 'a Stats" where
  "exec W s (Add ts val) = add W s (ts, val)"
| "exec W s Clear = clear W s"

definition run :: "nat \<Rightarrow> 'a call list \<Rightarrow> 'a Stats" where
  "run W cs = foldl (exec W) (Stats_new W) cs"

definition adds :: "nat \<Rightarrow> 'a StatsPair list \<Rightarrow> 'a Stats" where
  "adds W ps = foldl (add W) (Stats_new W) ps"

fun added :: "'a call list \<Rightarrow> 'a StatsPair list" where
  "added [] = []"
| "added (Add ts val # cs) = (ts, val) # added cs"
| "added (Clear # cs) = added cs"

text \<open>
  The invariant of reachable states: there are \<open>W\<close> buckets, and the samples of bucket
  \<open>i\<close> all carry the timestamp of its first sample, whose residue modulo \<open>W\<close> is \<open>i\<close>.
\<close>

definition bucket_inv :: "nat \<Rightarrow> 'a Stats \<Rightarrow> bool" where
  "bucket_inv W s \<longleftrightarrow>
     length s = W \<and> (\<forall>i<W. \<forall>p\<in>set (s ! i). unat (fst p) mod W = i \<and> fst p = fst (s ! i ! 0))"

text \<open>
  The pairs of a sequence of insertions that no later insertion evicts: a pair is dropped
  when a later pair goes to the same bucket with another timestamp.
\<close>

fun survivors :: "nat \<Rightarrow> 'a StatsPair list \<Rightarrow> 'a StatsPair list" where
  "survivors W [] = []"
| "survivors W (p # ps) =
     (if \<exists>q\<in>set ps. unat (fst q) mod W = unat (fst p) mod W \<and> fst q \<noteq> fst p
      then survivors W ps else p # survivors W ps)"

section \<open>Insertion\<close>

lemma length_add: "length (add W s p) = length s"
  by (simp add: add_def Let_def)

lemma add_nth_other:
  "j \<noteq> unat (fst p) mod W \<Longrightarrow> add W s p ! j = s ! j"
  by (simp add: add_def Let_def)

lemma add_nth_same:
  assumes "unat (fst p) mod W < length s"
  shows "add W s p ! (unat (fst p) mod W) =
           (if s ! (unat (fst p) mod W) \<noteq> [] \<and> fst p \<noteq> fst (s ! (unat (fst p) mod W) ! 0)
            then [] else s ! (unat (fst p) mod W)) @ [p]"
  using assms by (simp add: add_def Let_def)

lemma unat_plus_W:
  assumes "unat (t :: 64 word) + W < 2 ^ 64"
  shows "unat (t + word_of_nat W) = unat t + W"
proof -
  have "W < 2 ^ 64" using assms by simp
  then have "unat (word_of_nat W :: 64 word) = W"
    by (simp add: unat_of_nat)
  then show ?thesis
    using assms by (simp add: unat_add_lem [THEN iffD1])
qed

text \<open>
  Claim C6. \<^verbatim>\<open>add(t, v)\<close> works on bucket \<open>t mod W\<close>: when that bucket is not empty
  and the timestamp of its first element differs from \<open>t\<close>, its contents are dropped;
  then \<open>(t, v)\<close> is appended at its tail. In particular, when \<open>t + W\<close> is still a
  timestamp, adding \<open>(t, a)\<close> and then \<open>(t + W, b)\<close> leaves the bucket holding only
  \<open>(t + W, b)\<close>.
\<close>

theorem add_routes_and_evicts:
  assumes "0 < W" and "length s = W"
  shows "add W s (t, v) ! (unat t mod W) =
           (if s ! (unat t mod W) \<noteq> [] \<and> fst (s ! (unat t mod W) ! 0) \<noteq> t
            then [] else s ! (unat t mod W)) @ [(t, v)]
         \<and> (unat t + W < 2 ^ 64 \<longrightarrow>
              add W (add W s (t, a)) (t + word_of_nat W, b) ! (unat t mod W)
                = [(t + word_of_nat W, b)])"
proof (intro conjI impI)
  have i: "unat t mod W < length s" using assms by simp
  show "add W s (t, v) ! (unat t mod W) =
           (if s ! (unat t mod W) \<noteq> [] \<and> fst (s ! (unat t mod W) ! 0) \<noteq> t
            then [] else s ! (unat t mod W)) @ [(t, v)]"
    using add_nth_same [of "(t, v)" W s] i by auto
next
  assume nov: "unat t + W < 2 ^ 64"
  let ?i = "unat t mod W"
  let ?s1 = "add W s (t, a)"
  let ?t2 = "t + word_of_nat W"
  have i: "?i < length s" using assms by simp
  have u: "unat ?t2 = unat t + W" by (rule unat_plus_W [OF nov])
  then have idx: "unat ?t2 mod W = ?i" by simp
  have ne: "?t2 \<noteq> t"
  proof
    assume "?t2 = t"
    then have "unat ?t2 = unat t" by simp
    with u assms(1) show False by simp
  qed
  have b1: "?s1 ! ?i \<noteq> []"
    using add_nth_same [of "(t, a)" W s] i by simp
  have f1: "fst (?s1 ! ?i ! 0) = t"
    using add_nth_same [of "(t, a)" W s] i
    by (cases "s ! ?i") (auto simp: nth_append)
  have "add W ?s1 (?t2, b) ! (unat (fst (?t2, b)) mod W) =
          (if ?s1 ! (unat (fst (?t2, b)) mod W) \<noteq> [] \<and> fst (?t2, b) \<noteq> fst (?s1 ! (unat (fst (?t2, b)) mod W) ! 0)
           then [] else ?s1 ! (unat (fst (?t2, b)) mod W)) @ [(?t2, b)]"
    by (rule add_nth_same) (use i idx in \<open>simp add: length_add\<close>)
  then show "add W ?s1 (?t2, b) ! ?i = [(?t2, b)]"
    using idx b1 f1 ne by simp
qed

theorem add_routes_and_evicts_witness:
  "add 60 (add 60 (Stats_new 60) (1000, 1 :: int)) (1000, 2) ! 40 = [(1000, 1), (1000, 2)]
   \<and> add 60 (add 60 (Stats_new 60) (1000, 1 :: int)) (1060, 2) ! 40 = [(1060, 2)]"
  using add_routes_and_evicts [of 60 "add 60 (Stats_new 60) (1000, 1 :: int)" 1000 2 ]
    add_routes_and_evicts [of 60 "Stats_new 60 :: int Stats" 1000 ]
  by (simp add: Stats_new_def length_add)

text \<open>
  Claim C10. \<^verbatim>\<open>add(t, v)\<close> leaves every bucket other than bucket \<open>t mod W\<close> as it
  was.
\<close>

theorem add_frame:
  assumes "j \<noteq> unat t mod W"
  shows "add W s (t, v) ! j = s ! j"
  using assms by (simp add: add_nth_other)

theorem add_frame_witness:
  "(39::nat) \<noteq> unat (1000 :: 64 word) mod 60 \<and> add 60 (Stats_new 60) (1000, 5 :: int) ! 39 = Stats_new 60 ! 39"
  using add_frame [of 39 1000 60 "Stats_new 60" "5 :: int"] by simp

section \<open>The traversal computes the view\<close>

lemma seek_at_max:
  "index it = index_max it \<Longrightarrow> seek W s it = Some it"
  by (subst seek.simps) simp

lemma traverse_max_bucket:
  assumes "index it = m" "index_max it = m" "current it = (m, off)" "off \<le> length (s ! m)"
    and "current fin = (m, length (s ! m))"
  shows "traverse W s it fin = Some (drop off (s ! m))"
  using assms
proof (induction "length (s ! m) - off" arbitrary: it off)
  case 0
  then have "off = length (s ! m)" by simp
  with 0 show ?case
    by (subst traverse.simps) (simp add: it_neq_def)
next
  case (Suc k)
  then have lt: "off < length (s ! m)" by simp
  let ?it' = "it\<lparr>current := (m, Suc off)\<rparr>"
  have incr: "it_incr W s it = Some ?it'"
    using Suc.prems by (simp add: it_incr_def seek_at_max)
  have "traverse W s ?it' fin = Some (drop (Suc off) (s ! m))"
    by (rule Suc.hyps(1)) (use Suc lt in auto)
  then show ?case
    using Suc.prems lt incr
    by (subst traverse.simps) (simp add: it_neq_def it_deref_def Cons_nth_drop_Suc)
qed

lemma ring_step_not_max:
  assumes "0 < n" "n < W" "i < W" "(i + n) mod W = m"
  shows "i \<noteq> (m :: nat)"
proof
  assume "i = m"
  show False
  proof (cases "i + n < W")
    case True
    then have "(i + n) mod W = i + n" by (rule mod_less)
    then show False using assms \<open>i = m\<close> by arith
  next
    case False
    then have "(i + n) mod W = (i + n - W) mod W"
      by (simp add: le_mod_geq)
    also have "\<dots> = i + n - W"
      using assms False by (intro mod_less) arith
    finally have "(i + n) mod W = i + n - W" .
    then show False using assms \<open>i = m\<close> False by arith
  qed
qed

lemma seek_skip:
  assumes "index it = i" "index_max it = m" "i \<noteq> m" "current it = (i, off)"
    and "off = length (s ! i) \<or> fst (s ! i ! off) < ts_min it"
  shows "seek W s it = seek W s (it\<lparr>index := next_index W i, current := (next_index W i, 0)\<rparr>)"
  using assms by (subst seek.simps) auto

lemma seek_stay:
  assumes "index it = i" "current it = (i, off)"
    and "off \<noteq> length (s ! i)" "\<not> fst (s ! i ! off) < ts_min it"
  shows "seek W s it = Some it"
  using assms by (subst seek.simps) auto

lemma seek_traverse_bucket:
  assumes im: "i \<noteq> m" and fin: "current fin = (m, length (s ! m))"
    and nxt: "\<And>it'. index it' = next_index W i \<Longrightarrow> index_max it' = m \<Longrightarrow>
               current it' = (next_index W i, 0) \<Longrightarrow> ts_min it' = tmin \<Longrightarrow>
               Option.bind (seek W s it') (\<lambda>x. traverse W s x fin) = Some R"
  shows "index it = i \<Longrightarrow> index_max it = m \<Longrightarrow> current it = (i, off) \<Longrightarrow>
         off \<le> length (s ! i) \<Longrightarrow> ts_min it = tmin \<Longrightarrow>
         Option.bind (seek W s it) (\<lambda>x. traverse W s x fin)
           = Some (takeWhile (fresh tmin) (drop off (s ! i)) @ R)"
proof (induction "length (s ! i) - off" arbitrary: it off)
  case 0
  then have off: "off = length (s ! i)" by simp
  have "seek W s it = seek W s (it\<lparr>index := next_index W i, current := (next_index W i, 0)\<rparr>)"
    by (rule seek_skip [where m = m and off = off]) (use 0 im off in auto)
  moreover have "Option.bind (seek W s (it\<lparr>index := next_index W i, current := (next_index W i, 0)\<rparr>))
                   (\<lambda>x. traverse W s x fin) = Some R"
    by (rule nxt) (use 0 in auto)
  ultimately show ?case using off by simp
next
  case (Suc k)
  then have lt: "off < length (s ! i)" by simp
  then have dr: "drop off (s ! i) = s ! i ! off # drop (Suc off) (s ! i)"
    by (simp add: Cons_nth_drop_Suc)
  show ?case
  proof (cases "fst (s ! i ! off) < tmin")
    case True
    have "seek W s it = seek W s (it\<lparr>index := next_index W i, current := (next_index W i, 0)\<rparr>)"
      by (rule seek_skip [where m = m and off = off]) (use Suc.prems im True in auto)
    moreover have "Option.bind (seek W s (it\<lparr>index := next_index W i, current := (next_index W i, 0)\<rparr>))
                     (\<lambda>x. traverse W s x fin) = Some R"
      by (rule nxt) (use Suc.prems in auto)
    ultimately show ?thesis using True dr by (simp add: fresh_def)
  next
    case False
    let ?it' = "it\<lparr>current := (i, Suc off)\<rparr>"
    have stay: "seek W s it = Some it"
      by (rule seek_stay [where i = i and off = off]) (use Suc.prems lt False in auto)
    have neq: "it_neq it fin"
      using Suc.prems im fin by (simp add: it_neq_def)
    have incr: "it_incr W s it = seek W s ?it'"
      using Suc.prems by (simp add: it_incr_def)
    have ih: "Option.bind (seek W s ?it') (\<lambda>x. traverse W s x fin)
               = Some (takeWhile (fresh tmin) (drop (Suc off) (s ! i)) @ R)"
      by (rule Suc.hyps(1)) (use Suc lt in auto)
    have "traverse W s it fin =
            Option.bind (Option.bind (seek W s ?it') (\<lambda>x. traverse W s x fin))
              (\<lambda>r. Some (s ! i ! off # r))"
      using neq incr Suc.prems
      by (subst traverse.simps) (simp add: it_deref_def)
    then show ?thesis
      using stay ih False dr by (simp add: fresh_def)
  qed
qed

lemma seek_traverse_ring:
  assumes fin: "current fin = (m, length (s ! m))"
  shows "n < W \<Longrightarrow> i < W \<Longrightarrow> (i + n) mod W = m \<Longrightarrow> index it = i \<Longrightarrow> index_max it = m \<Longrightarrow>
         current it = (i, 0) \<Longrightarrow> ts_min it = tmin \<Longrightarrow>
         Option.bind (seek W s it) (\<lambda>x. traverse W s x fin)
           = Some (ring W s tmin i n @ s ! m)"
proof (induction n arbitrary: i it)
  case 0
  then have "i = m" by simp
  with 0 fin show ?case
    by (simp add: seek_at_max traverse_max_bucket [where m = m and off = 0])
next
  case (Suc n)
  have im: "i \<noteq> m"
    by (rule ring_step_not_max [where n = "Suc n" and W = W]) (use Suc.prems in auto)
  have W: "0 < W" using Suc.prems by simp
  have nx: "(next_index W i + n) mod W = m"
    using Suc.prems(3) by (simp add: next_index_def mod_add_left_eq)
  have "Option.bind (seek W s it) (\<lambda>x. traverse W s x fin)
          = Some (takeWhile (fresh tmin) (drop 0 (s ! i)) @ (ring W s tmin (next_index W i) n @ s ! m))"
  proof (rule seek_traverse_bucket [OF im fin])
    fix it' :: statsBucketsIterator
    assume "index it' = next_index W i" "index_max it' = m"
      "current it' = (next_index W i, 0)" "ts_min it' = tmin"
    then show "Option.bind (seek W s it') (\<lambda>x. traverse W s x fin)
                = Some (ring W s tmin (next_index W i) n @ s ! m)"
      using Suc.prems W nx by (intro Suc.IH) (auto simp: next_index_def)
  qed (use Suc.prems in auto)
  then show ?case by simp
qed

lemma scan_max_index:
  "im < W \<Longrightarrow> \<forall>i\<in>set js. i < W \<Longrightarrow> snd (scan_max s js mx im) < W"
  by (induction js arbitrary: mx im) auto

lemma ctor_index_max: "0 < W \<Longrightarrow> index_max (statsBucketsIterator_ctor W s) < W"
  using scan_max_index [of 0 W "[0..<W]" s 0]
  by (auto simp: statsBucketsIterator_ctor_def split: prod.splits)

lemma next_index_wrap:
  assumes "0 < W" "m < W"
  shows "(next_index W m + (W - 1)) mod W = m"
proof -
  have "(next_index W m + (W - 1)) mod W = ((m + 1) + (W - 1)) mod W"
    by (simp only: next_index_def mod_add_left_eq)
  also have "(m + 1) + (W - 1) = m + W" using assms by simp
  finally show ?thesis using assms by simp
qed

text \<open>
  The loop over the iterator always ends, and it yields the list \<open>view\<close>.
\<close>

theorem get_all_view:
  assumes "0 < W"
  shows "get_all W s = Some (view W s)"
proof -
  let ?c = "statsBucketsIterator_ctor W s"
  let ?m = "index_max ?c"
  let ?b = "?c\<lparr>index := next_index W ?m, current := (next_index W ?m, 0)\<rparr>"
  have m: "?m < W" by (rule ctor_index_max [OF assms])
  have fin: "current (Stats_end W s) = (?m, length (s ! ?m))"
    by (simp add: Stats_end_def it_end_def)
  have "(next_index W ?m + (W - 1)) mod W = ?m"
    using assms m by (rule next_index_wrap)
  then have "Option.bind (seek W s ?b) (\<lambda>x. traverse W s x (Stats_end W s))
          = Some (ring W s (ts_min ?c) (next_index W ?m) (W - 1) @ s ! ?m)"
    using assms by (intro seek_traverse_ring [OF fin]) (auto simp: next_index_def)
  then show ?thesis
    by (simp add: get_all_def Stats_begin_def it_begin_def view_def Let_def)
qed

section \<open>Invariants of reachable states\<close>

subsection \<open>The invariant of the buckets\<close>

lemma clear_prefix:
  "n \<le> length s \<Longrightarrow> foldl (\<lambda>b i. b[i := []]) s [0..<n] = replicate n [] @ drop n s"
proof (induction n)
  case 0
  then show ?case by simp
next
  case (Suc n)
  then have "foldl (\<lambda>b i. b[i := []]) s [0..<Suc n] = (replicate n [] @ drop n s)[n := []]"
    by simp
  also have "\<dots> = replicate n [] @ (drop n s)[0 := []]"
    by (simp add: list_update_append)
  also have "(drop n s)[0 := []] = [] # drop (Suc n) s"
    using Suc.prems by (cases "drop n s") (auto simp: drop_Suc drop_tl)
  finally show ?case by (simp add: replicate_append_same)
qed

lemma clear_new: "length s = W \<Longrightarrow> clear W s = Stats_new W"
  by (simp add: clear_def Stats_new_def clear_prefix)

lemma bucket_inv_new: "bucket_inv W (Stats_new W)"
  by (simp add: bucket_inv_def Stats_new_def)

lemma bucket_inv_add:
  assumes "0 < W" "bucket_inv W s"
  shows "bucket_inv W (add W s p)"
proof -
  let ?i = "unat (fst p) mod W"
  have len: "length s = W" using assms by (simp add: bucket_inv_def)
  have i: "?i < length s" using assms len by simp
  have same: "add W s p ! ?i =
      (if s ! ?i \<noteq> [] \<and> fst p \<noteq> fst (s ! ?i ! 0) then [] else s ! ?i) @ [p]"
    by (rule add_nth_same [OF i])
  have "\<forall>q\<in>set (add W s p ! j). unat (fst q) mod W = j \<and> fst q = fst (add W s p ! j ! 0)"
    if j: "j < W" for j
  proof (cases "j = ?i")
    case False
    then have eq: "add W s p ! j = s ! j" by (rule add_nth_other)
    have oldj: "\<forall>q\<in>set (s ! j). unat (fst q) mod W = j \<and> fst q = fst (s ! j ! 0)"
      using assms(2) j unfolding bucket_inv_def by blast
    show ?thesis unfolding eq by (rule oldj)
  next
    case True
    have iW: "?i < W" using assms(1) by simp
    have old: "\<forall>q\<in>set (s ! ?i). unat (fst q) mod W = ?i \<and> fst q = fst (s ! ?i ! 0)"
      using assms(2) iW unfolding bucket_inv_def by blast
    show ?thesis
    proof (cases "s ! ?i \<noteq> [] \<and> fst p \<noteq> fst (s ! ?i ! 0)")
      case True
      then have "(if s ! ?i \<noteq> [] \<and> fst p \<noteq> fst (s ! ?i ! 0) then [] else s ! ?i) = []"
        by (rule if_P)
      then have "add W s p ! ?i = [p]" using same by (simp only: append_Nil)
      then show ?thesis unfolding \<open>j = ?i\<close> by simp
    next
      case False
      then have "(if s ! ?i \<noteq> [] \<and> fst p \<noteq> fst (s ! ?i ! 0) then [] else s ! ?i) = s ! ?i"
        by (rule if_not_P)
      then have eq: "add W s p ! ?i = s ! ?i @ [p]" using same by (simp only:)
      show ?thesis
      proof (cases "s ! ?i")
        case Nil
        then show ?thesis unfolding \<open>j = ?i\<close> eq by simp
      next
        case (Cons x xs)
        then have hd: "fst (s ! ?i ! 0) = fst p" using False by auto
        have first: "(s ! ?i @ [p]) ! 0 = s ! ?i ! 0" using Cons by simp
        have "unat (fst q) mod W = ?i \<and> fst q = fst (s ! ?i ! 0)"
          if "q \<in> set (s ! ?i @ [p])" for q
        proof (cases "q = p")
          case True
          then show ?thesis using hd by (simp only:)
        next
          case False
          then have "q \<in> set (s ! ?i)" using that by simp
          then show ?thesis using old by blast
        qed
        then show ?thesis unfolding \<open>j = ?i\<close> eq first by blast
      qed
    qed
  qed
  moreover have "length (add W s p) = W" using len by (simp add: length_add)
  ultimately show ?thesis unfolding bucket_inv_def by blast
qed

lemma bucket_inv_exec:
  assumes "0 < W" "bucket_inv W s"
  shows "bucket_inv W (exec W s c)"
proof (cases c)
  case (Add ts val)
  then show ?thesis using assms by (simp add: bucket_inv_add)
next
  case Clear
  have "clear W s = Stats_new W"
    using assms by (simp add: clear_new bucket_inv_def)
  then show ?thesis using Clear by (simp add: bucket_inv_new)
qed

lemma bucket_inv_foldl:
  "0 < W \<Longrightarrow> bucket_inv W s \<Longrightarrow> bucket_inv W (foldl (exec W) s cs)"
  by (induction cs arbitrary: s) (simp_all add: bucket_inv_exec)

lemma bucket_inv_run: "0 < W \<Longrightarrow> bucket_inv W (run W cs)"
  by (simp add: run_def bucket_inv_foldl bucket_inv_new)

subsection \<open>The scan of the constructor\<close>

lemma scan_max_ge: "scan_max s js mx0 im0 = (mx, im) \<Longrightarrow> mx0 \<le> mx"
proof (induction js arbitrary: mx0 im0)
  case Nil
  then show ?case by simp
next
  case (Cons i js)
  show ?case
  proof (cases "s ! i \<noteq> [] \<and> fst (s ! i ! 0) > mx0")
    case True
    then have "fst (s ! i ! 0) \<le> mx" using Cons by auto
    with True show ?thesis by auto
  next
    case False
    then show ?thesis using Cons by auto
  qed
qed

lemma scan_max_upper:
  "scan_max s js mx0 im0 = (mx, im) \<Longrightarrow> i \<in> set js \<Longrightarrow> s ! i \<noteq> [] \<Longrightarrow> fst (s ! i ! 0) \<le> mx"
proof (induction js arbitrary: mx0 im0)
  case Nil
  then show ?case by simp
next
  case (Cons j js)
  show ?case
  proof (cases "s ! j \<noteq> [] \<and> fst (s ! j ! 0) > mx0")
    case True
    then have sc: "scan_max s js (fst (s ! j ! 0)) j = (mx, im)" using Cons.prems by simp
    show ?thesis
    proof (cases "i = j")
      case True
      then show ?thesis using scan_max_ge [OF sc] by simp
    next
      case False
      then show ?thesis using Cons.IH [OF sc] Cons.prems by simp
    qed
  next
    case False
    then have sc: "scan_max s js mx0 im0 = (mx, im)" using Cons.prems by auto
    show ?thesis
    proof (cases "i = j")
      case True
      then have "fst (s ! i ! 0) \<le> mx0" using False Cons.prems by auto
      then show ?thesis using scan_max_ge [OF sc] by simp
    next
      case F: False
      then show ?thesis using Cons.IH [OF sc] Cons.prems by simp
    qed
  qed
qed

lemma scan_max_attained:
  "scan_max s js mx0 im0 = (mx, im) \<Longrightarrow>
     (mx, im) = (mx0, im0) \<or> (im \<in> set js \<and> s ! im \<noteq> [] \<and> fst (s ! im ! 0) = mx)"
proof (induction js arbitrary: mx0 im0)
  case Nil
  then show ?case by simp
next
  case (Cons j js)
  show ?case
  proof (cases "s ! j \<noteq> [] \<and> fst (s ! j ! 0) > mx0")
    case True
    then have sc: "scan_max s js (fst (s ! j ! 0)) j = (mx, im)" using Cons.prems by simp
    from Cons.IH [OF sc] True show ?thesis by auto
  next
    case False
    then have sc: "scan_max s js mx0 im0 = (mx, im)" using Cons.prems by auto
    from Cons.IH [OF sc] show ?thesis by auto
  qed
qed

subsection \<open>Arithmetic of the ring\<close>

lemma mod_add_cancel_nat:
  fixes a d e W :: nat
  assumes "(a + d) mod W = (a + e) mod W"
  shows "d mod W = e mod W"
proof -
  from assms obtain q1 q2 where "a + d + W * q1 = a + e + W * q2"
    unfolding nat_mod_eq_iff by blast
  then have "d + W * q1 = e + W * q2" by simp
  then show ?thesis unfolding nat_mod_eq_iff by blast
qed

lemma window_unique:
  fixes T N W k :: nat
  assumes "W \<le> N" "N - W \<le> T" "T \<le> N" "k + 1 < W" "T mod W = (N + 1 + k) mod W"
  shows "T + W = N + 1 + k"
proof -
  define d where "d = T + W - N"
  have d: "T + W = N + d" "d \<le> W" using assms by (auto simp: d_def)
  have "(N + d) mod W = (T + W) mod W" using d by simp
  also have "\<dots> = T mod W" by simp
  also have "\<dots> = (N + (1 + k)) mod W" using assms by (simp add: add.assoc)
  finally have "d mod W = (1 + k) mod W" by (rule mod_add_cancel_nat)
  then have dm: "d mod W = 1 + k" using assms by simp
  have "d \<noteq> W" using dm by auto
  then have "d < W" using d by simp
  then have "d = 1 + k" using dm by simp
  then show ?thesis using d by simp
qed

subsection \<open>The newest bucket\<close>

lemma ctor_fields:
  assumes "scan_max s [0..<W] 0 0 = (M, m)"
  shows "ts_min (statsBucketsIterator_ctor W s) = M - word_of_nat W"
    and "index_max (statsBucketsIterator_ctor W s) = m"
  using assms by (simp_all add: statsBucketsIterator_ctor_def)

lemma bucket_invD:
  assumes "bucket_inv W s" "i < W" "p \<in> set (s ! i)"
  shows "unat (fst p) mod W = i" and "fst p = fst (s ! i ! 0)"
  using assms unfolding bucket_inv_def by blast+

lemma stored_le_max:
  assumes inv: "bucket_inv W s" and sc: "scan_max s [0..<W] 0 0 = (M, m)"
    and i: "i < W" and p: "p \<in> set (s ! i)"
  shows "fst p \<le> M"
proof -
  have ne: "s ! i \<noteq> []" using p by auto
  have "fst (s ! i ! 0) \<le> M"
    by (rule scan_max_upper [OF sc _ ne]) (use i in simp)
  then show ?thesis using bucket_invD(2) [OF inv i p] by simp
qed

lemma max_bucket:
  assumes W: "0 < W" and inv: "bucket_inv W s" and sc: "scan_max s [0..<W] 0 0 = (M, m)"
    and i: "i < W" and ne: "s ! i \<noteq> []"
  shows "s ! m \<noteq> [] \<and> fst (s ! m ! 0) = M \<and> m = unat M mod W \<and> m < W"
proof -
  have att: "s ! m \<noteq> [] \<and> fst (s ! m ! 0) = M \<and> m < W"
  proof (cases "(M, m) = (0, 0)")
    case True
    have hd: "s ! i ! 0 \<in> set (s ! i)" using ne by simp
    have "fst (s ! i ! 0) \<le> M"
      by (rule stored_le_max [OF inv sc i hd])
    then have z: "fst (s ! i ! 0) = 0" using True by simp
    have "unat (fst (s ! i ! 0)) mod W = i"
      by (rule bucket_invD(1) [OF inv i hd])
    then have "i = 0" using z by simp
    then show ?thesis using True ne z W by simp
  next
    case False
    then show ?thesis using scan_max_attained [OF sc] by auto
  qed
  then have "s ! m ! 0 \<in> set (s ! m)" by simp
  then have "unat (fst (s ! m ! 0)) mod W = m"
    using att by (intro bucket_invD(1) [OF inv]) auto
  then show ?thesis using att by auto
qed

section \<open>The view in blocks\<close>

lemma next_index_less: "0 < W \<Longrightarrow> next_index W i < W"
  by (simp add: next_index_def)

lemma next_index_add: "(next_index W i + k) mod W = (i + Suc k) mod W"
  by (simp add: next_index_def mod_add_left_eq)

lemma ring_concat:
  "i < W \<Longrightarrow> ring W s tmin i n
     = concat (map (\<lambda>k. takeWhile (fresh tmin) (s ! ((i + k) mod W))) [0..<n])"
proof (induction n arbitrary: i)
  case 0
  then show ?case by simp
next
  case (Suc n)
  have W: "0 < W" using Suc.prems by simp
  have "ring W s tmin (next_index W i) n
          = concat (map (\<lambda>k. takeWhile (fresh tmin) (s ! ((next_index W i + k) mod W))) [0..<n])"
    by (rule Suc.IH) (rule next_index_less [OF W])
  also have "\<dots> = concat (map (\<lambda>k. takeWhile (fresh tmin) (s ! ((i + Suc k) mod W))) [0..<n])"
    by (simp only: next_index_add)
  also have "\<dots> = concat (map (\<lambda>k. takeWhile (fresh tmin) (s ! ((i + k) mod W))) (map Suc [0..<n]))"
    by (simp add: comp_def)
  finally have r: "ring W s tmin (next_index W i) n
     = concat (map (\<lambda>k. takeWhile (fresh tmin) (s ! ((i + k) mod W))) (map Suc [0..<n]))" .
  have "[0..<Suc n] = 0 # map Suc [0..<n]"
    by (simp only: map_Suc_upt upt_conv_Cons [of 0 "Suc n"])
  then show ?case using r Suc.prems by simp
qed

lemma view_blocks:
  assumes "0 < W"
  shows "view W s = concat (map (block W s) [0..<W])"
proof -
  let ?it = "statsBucketsIterator_ctor W s"
  have "[0..<W] = [0..<W - 1] @ [W - 1]"
    using assms by (metis Suc_pred' upt_Suc_append zero_le)
  then have "concat (map (block W s) [0..<W])
               = concat (map (block W s) [0..<W - 1]) @ block W s (W - 1)"
    by (metis concat_append concat.simps append_Nil2 list.simps(8,9) map_append)
  also have "block W s (W - 1) = s ! index_max ?it"
    by (simp add: block_def Let_def)
  also have "map (block W s) [0..<W - 1]
       = map (\<lambda>k. takeWhile (fresh (ts_min ?it)) (s ! ((next_index W (index_max ?it) + k) mod W))) [0..<W - 1]"
    by (rule map_cong) (simp_all add: block_def next_index_add Let_def)
  also have "concat \<dots> = ring W s (ts_min ?it) (next_index W (index_max ?it)) (W - 1)"
    by (rule ring_concat [symmetric]) (rule next_index_less [OF assms])
  finally show ?thesis by (simp add: view_def Let_def)
qed

subsection \<open>The timestamps of a block\<close>

lemma unat_W: "W < 2 ^ 64 \<Longrightarrow> unat (word_of_nat W :: 64 word) = W"
  by (simp add: unat_of_nat)

lemma fresh_unat:
  assumes "W < 2 ^ 64"
  shows "fresh (M - word_of_nat W) p \<longleftrightarrow>
           (if W \<le> unat M then unat M - W \<le> unat (fst p)
            else unat M + 2 ^ 64 - W \<le> unat (fst p))"
  using assms
  by (simp add: fresh_def word_less_nat_alt unat_sub_if_size unat_W word_size not_less)

lemma block_subset:
  assumes "0 < W" "k < W" "scan_max s [0..<W] 0 0 = (M, m)" "m < W"
    and "p \<in> set (block W s k)"
  shows "p \<in> set (s ! ((m + Suc k) mod W))"
proof (cases "k < W - 1")
  case True
  then show ?thesis
    using assms by (auto simp: block_def Let_def ctor_fields dest: set_takeWhileD)
next
  case False
  then have "k = W - 1" using assms by simp
  then have "(m + Suc k) mod W = m" using assms by simp
  then show ?thesis using assms False by (simp add: block_def Let_def ctor_fields)
qed

lemma block_key:
  assumes W: "0 < W" "W < 2 ^ 64" and inv: "bucket_inv W s"
    and sc: "scan_max s [0..<W] 0 0 = (M, m)"
    and k: "k < W" and p: "p \<in> set (block W s k)"
  shows "unat (fst p) + W = unat M + 1 + k"
proof -
  let ?j = "(m + Suc k) mod W"
  have mW: "m < W" using scan_max_index [of 0 W "[0..<W]" s 0] sc W by simp
  have j: "?j < W" using W by simp
  have pj: "p \<in> set (s ! ?j)"
    by (rule block_subset [OF W(1) k sc mW p])
  then have ne: "s ! ?j \<noteq> []" by auto
  have mb: "s ! m \<noteq> [] \<and> fst (s ! m ! 0) = M \<and> m = unat M mod W \<and> m < W"
    by (rule max_bucket [OF W(1) inv sc j ne])
  have le: "unat (fst p) \<le> unat M"
    using stored_le_max [OF inv sc j pj] by (simp add: word_le_nat_alt)
  have "unat (fst p) mod W = ?j"
    by (rule bucket_invD(1) [OF inv j pj])
  also have "?j = (unat M mod W + Suc k) mod W" using mb by simp
  also have "\<dots> = (unat M + Suc k) mod W" by (simp only: mod_add_left_eq)
  also have "unat M + Suc k = unat M + 1 + k" by simp
  finally have md: "unat (fst p) mod W = (unat M + 1 + k) mod W" .
  show ?thesis
  proof (cases "k < W - 1")
    case False
    then have kk: "k = W - 1" using k by simp
    then have "?j = m" using mW W by simp
    then have "fst p = fst (s ! m ! 0)"
      using bucket_invD(2) [OF inv mW] pj by simp
    moreover have "fst (s ! m ! 0) = M" using mb by blast
    ultimately have "fst p = M" by (rule trans)
    then show ?thesis using kk W by simp
  next
    case True
    then have "p \<in> set (takeWhile (fresh (M - word_of_nat W)) (s ! ?j))"
      using p sc by (simp add: block_def Let_def ctor_fields)
    then have "fresh (M - word_of_nat W) p"
      by (rule set_takeWhileD [THEN conjunct2])
    then have fr: "W \<le> unat M \<and> unat M - W \<le> unat (fst p)"
      using le W(2) by (auto simp: fresh_unat split: if_splits)
    show ?thesis
      by (rule window_unique) (use fr le True md in auto)
  qed
qed

lemma keyed_concat_sorted:
  fixes g :: "'b \<Rightarrow> nat"
  assumes "\<And>k p. k < n \<Longrightarrow> p \<in> set (B k) \<Longrightarrow> g p = c + k"
  shows "sorted_wrt (\<lambda>p q. g p \<le> g q) (concat (map B [0..<n]))"
  using assms
proof (induction n)
  case 0
  then show ?case by simp
next
  case (Suc n)
  have "sorted_wrt (\<lambda>p q. g p \<le> g q) (concat (map B [0..<n]))"
    by (rule Suc.IH) (simp add: Suc.prems)
  moreover have "sorted_wrt (\<lambda>p q. g p \<le> g q) (B n)"
  proof (rule sorted_wrt_mono_rel [OF _ sorted_wrt_true])
    fix x y assume "x \<in> set (B n)" "y \<in> set (B n)"
    then show "g x \<le> g y" using Suc.prems [of n x] Suc.prems [of n y] by simp
  qed
  moreover have "g p \<le> g q" if "p \<in> set (concat (map B [0..<n]))" "q \<in> set (B n)" for p q
  proof -
    from that obtain k where "k < n" "p \<in> set (B k)" by auto
    then show ?thesis using that Suc.prems [of k p] Suc.prems [of n q] by simp
  qed
  ultimately show ?case by (simp add: sorted_wrt_append)
qed

subsection \<open>Insertion order\<close>

lemma added_append: "added (cs @ ds) = added cs @ added ds"
  by (induction cs rule: added.induct) simp_all

lemma run_snoc: "run W (cs @ [c]) = exec W (run W cs) c"
  by (simp add: run_def)

lemma bucket_suffix:
  assumes W: "0 < W"
  shows "i < W \<Longrightarrow> run W cs ! i \<noteq> [] \<Longrightarrow>
         suffix (run W cs ! i) (filter (\<lambda>p. fst p = fst (run W cs ! i ! 0)) (added cs))"
proof (induction cs arbitrary: i rule: rev_induct)
  case Nil
  then show ?case by (simp add: run_def Stats_new_def)
next
  case (snoc c cs)
  let ?s = "run W cs"
  have inv: "bucket_inv W ?s" by (rule bucket_inv_run [OF W])
  have len: "length ?s = W" using inv by (simp add: bucket_inv_def)
  show ?case
  proof (cases c)
    case Clear
    then have "run W (cs @ [c]) = Stats_new W"
      using len by (simp add: run_snoc clear_new)
    then show ?thesis using snoc.prems by (simp add: Stats_new_def)
  next
    case (Add t v)
    let ?i0 = "unat t mod W"
    have s': "run W (cs @ [c]) = add W ?s (t, v)" using Add by (simp add: run_snoc)
    have ad: "added (cs @ [c]) = added cs @ [(t, v)]" using Add by (simp add: added_append)
    show ?thesis
    proof (cases "i = ?i0")
      case False
      then have eq: "add W ?s (t, v) ! i = ?s ! i" by (simp add: add_nth_other)
      then have ne: "?s ! i \<noteq> []" using snoc.prems s' by simp
      then have "?s ! i ! 0 \<in> set (?s ! i)" by simp
      then have "unat (fst (?s ! i ! 0)) mod W = i"
        by (rule bucket_invD(1) [OF inv snoc.prems(1)])
      then have "t \<noteq> fst (?s ! i ! 0)" using False by auto
      then have "filter (\<lambda>p. fst p = fst (?s ! i ! 0)) (added (cs @ [c]))
                  = filter (\<lambda>p. fst p = fst (?s ! i ! 0)) (added cs)"
        using ad by simp
      then show ?thesis using snoc.IH [OF snoc.prems(1) ne] s' eq by simp
    next
      case True
      have i0: "?i0 < length ?s" using W len by simp
      have same: "add W ?s (t, v) ! ?i0 =
          (if ?s ! ?i0 \<noteq> [] \<and> t \<noteq> fst (?s ! ?i0 ! 0) then [] else ?s ! ?i0) @ [(t, v)]"
        using add_nth_same [of "(t, v)" W ?s] i0 by simp
      show ?thesis
      proof (cases "?s ! ?i0 \<noteq> [] \<and> t \<noteq> fst (?s ! ?i0 ! 0)")
        case T: True
        then have "add W ?s (t, v) ! ?i0 = [(t, v)]" using same by simp
        then show ?thesis unfolding s' True ad by (simp add: suffix_def)
      next
        case F: False
        then have eq: "add W ?s (t, v) ! ?i0 = ?s ! ?i0 @ [(t, v)]" using same by auto
        show ?thesis
        proof (cases "?s ! ?i0 = []")
          case E: True
          then show ?thesis unfolding s' True ad eq by (simp add: suffix_def)
        next
          case N: False
          then have ft: "fst (?s ! ?i0 ! 0) = t" using F by simp
          have "suffix (?s ! ?i0) (filter (\<lambda>p. fst p = fst (?s ! ?i0 ! 0)) (added cs))"
            by (rule snoc.IH) (use W N in auto)
          then have "suffix (?s ! ?i0) (filter (\<lambda>p. fst p = t) (added cs))"
            by (simp only: ft)
          moreover have "(?s ! ?i0 @ [(t, v)]) ! 0 = ?s ! ?i0 ! 0"
            using N by (cases "?s ! ?i0") auto
          ultimately show ?thesis unfolding s' True ad eq by (simp add: ft)
        qed
      qed
    qed
  qed
qed

lemma block_whole:
  assumes W: "0 < W" and inv: "bucket_inv W s" and sc: "scan_max s [0..<W] 0 0 = (M, m)"
    and k: "k < W"
  shows "block W s k = [] \<or> block W s k = s ! ((m + Suc k) mod W)"
proof (cases "k < W - 1")
  case False
  have mW: "m < W" using scan_max_index [of 0 W "[0..<W]" s 0] sc W by simp
  from False have "k = W - 1" using k by simp
  then have "(m + Suc k) mod W = m" using mW W by simp
  then show ?thesis using False sc by (simp add: block_def Let_def ctor_fields)
next
  case True
  let ?j = "(m + Suc k) mod W"
  let ?P = "fresh (M - word_of_nat W)"
  have j: "?j < W" using W by simp
  have bl: "block W s k = takeWhile ?P (s ! ?j)"
    using True sc by (simp add: block_def Let_def ctor_fields)
  have all: "\<forall>p\<in>set (s ! ?j). fst p = fst (s ! ?j ! 0)"
    using bucket_invD(2) [OF inv j] by blast
  show ?thesis
  proof (cases "s ! ?j")
    case Nil
    then show ?thesis using bl by simp
  next
    case (Cons x xs)
    show ?thesis
    proof (cases "?P x")
      case False
      then show ?thesis using bl Cons by simp
    next
      case True
      have "\<forall>p\<in>set (s ! ?j). ?P p"
      proof
        fix p assume "p \<in> set (s ! ?j)"
        then have "fst p = fst x" using all Cons by auto
        then show "?P p" using True by (simp add: fresh_def)
      qed
      then have "takeWhile ?P (s ! ?j) = s ! ?j" by (simp add: takeWhile_eq_all_conv)
      then show ?thesis using bl by simp
    qed
  qed
qed

lemma concat_single:
  "concat (map (\<lambda>k. if k = k0 then f k else []) [0..<n]) = (if k0 < n then f k0 else [])"
  by (induction n) auto

lemma filter_uniform:
  assumes "\<forall>p\<in>set xs. fst p = c"
  shows "filter (\<lambda>p. fst p = t) xs = (if c = t then xs else [])"
  using assms by (induction xs) auto

lemma view_filter:
  assumes W: "0 < W" "W < 2 ^ 64" and inv: "bucket_inv W s"
  shows "filter (\<lambda>p. fst p = t) (view W s) = [] \<or>
         (\<exists>j<W. s ! j \<noteq> [] \<and> fst (s ! j ! 0) = t \<and> filter (\<lambda>p. fst p = t) (view W s) = s ! j)"
proof -
  obtain M m where sc: "scan_max s [0..<W] 0 0 = (M, m)" by (cases "scan_max s [0..<W] 0 0")
  define k0 where "k0 = unat t + W - (unat M + 1)"
  let ?P = "\<lambda>p :: 'a StatsPair. fst p = t"
  have other: "filter ?P (block W s k) = []" if "k < W" "k \<noteq> k0" for k
  proof -
    have "fst p \<noteq> t" if p: "p \<in> set (block W s k)" for p
    proof
      assume "fst p = t"
      then have "unat t + W = unat M + 1 + k"
        using block_key [OF W inv sc \<open>k < W\<close> p] by simp
      then show False using \<open>k \<noteq> k0\<close> by (simp add: k0_def)
    qed
    then show ?thesis by (simp add: filter_empty_conv)
  qed
  have "filter ?P (view W s) = concat (map (\<lambda>k. filter ?P (block W s k)) [0..<W])"
    by (simp add: view_blocks [OF W(1)] filter_concat comp_def)
  also have "map (\<lambda>k. filter ?P (block W s k)) [0..<W]
               = map (\<lambda>k. if k = k0 then filter ?P (block W s k) else []) [0..<W]"
    by (rule map_cong) (use other in auto)
  also have "concat \<dots> = (if k0 < W then filter ?P (block W s k0) else [])"
    by (rule concat_single)
  finally have fv: "filter ?P (view W s) = (if k0 < W then filter ?P (block W s k0) else [])" .
  show ?thesis
  proof (cases "k0 < W \<and> block W s k0 \<noteq> []")
    case False
    then show ?thesis using fv by auto
  next
    case True
    let ?j = "(m + Suc k0) mod W"
    have j: "?j < W" using W by simp
    have bl: "block W s k0 = s ! ?j"
      using block_whole [OF W(1) inv sc, of k0] True by auto
    have uni: "\<forall>p\<in>set (s ! ?j). fst p = fst (s ! ?j ! 0)"
      using bucket_invD(2) [OF inv j] by blast
    have fu: "filter ?P (s ! ?j) = (if fst (s ! ?j ! 0) = t then s ! ?j else [])"
      by (rule filter_uniform [OF uni])
    show ?thesis
    proof (cases "fst (s ! ?j ! 0) = t")
      case False
      then show ?thesis using fv True bl fu by simp
    next
      case T: True
      have "filter ?P (view W s) = s ! ?j" using fv True bl fu T by simp
      moreover have "s ! ?j \<noteq> []" using True bl by simp
      ultimately show ?thesis using j T by blast
    qed
  qed
qed

section \<open>Window and order of the view\<close>

text \<open>
  Claim C4. In every state reached from a new container by calls of \<^verbatim>\<open>add\<close> and
  \<^verbatim>\<open>clear\<close>, the loop from \<^verbatim>\<open>begin\<close> to \<^verbatim>\<open>end\<close> ends, and any two samples
  \<open>p\<close> and \<open>q\<close> it yields satisfy \<open>timestamp q < timestamp p + W\<close>: no yielded
  timestamp is at or below the largest yielded timestamp minus \<open>W\<close>. A bucket whose
  timestamp is exactly \<open>W\<close> below the largest one would have to be the bucket of the
  largest one, so none of its samples is ever yielded.
\<close>

theorem view_within_window:
  assumes "0 < W" and "W < 2 ^ 64"
  shows "\<exists>xs. get_all W (run W cs) = Some xs \<and>
           (\<forall>p\<in>set xs. \<forall>q\<in>set xs. unat (fst q) < unat (fst p) + W)"
proof -
  let ?s = "run W cs"
  have inv: "bucket_inv W ?s" by (rule bucket_inv_run [OF assms(1)])
  obtain M m where sc: "scan_max ?s [0..<W] 0 0 = (M, m)" by (cases "scan_max ?s [0..<W] 0 0")
  have "unat (fst q) < unat (fst p) + W" if "p \<in> set (view W ?s)" "q \<in> set (view W ?s)" for p q
  proof -
    from that obtain k1 k2 where k: "k1 < W" "p \<in> set (block W ?s k1)" "k2 < W" "q \<in> set (block W ?s k2)"
      by (auto simp: view_blocks [OF assms(1)])
    have "unat (fst p) + W = unat M + 1 + k1"
      by (rule block_key [OF assms inv sc k(1,2)])
    moreover have "unat (fst q) + W = unat M + 1 + k2"
      by (rule block_key [OF assms inv sc k(3,4)])
    ultimately show ?thesis using k(3) by arith
  qed
  then show ?thesis using get_all_view [OF assms(1), of ?s] by simp
qed

theorem view_within_window_witness:
  "(0 :: nat) < 3 \<and> (3 :: nat) < 2 ^ 64
   \<and> get_all 3 (run 3 [Add 100 (1 :: int), Add 101 2, Add 102 3, Add 103 4])
       = Some [(101, 2), (102, 3), (103, 4)]
   \<and> unat (fst (103 :: 64 word, 4 :: int)) < unat (fst (101 :: 64 word, 2 :: int)) + 3"
proof -
  have e: "get_all 3 (run 3 [Add 100 (1 :: int), Add 101 2, Add 102 3, Add 103 4])
             = Some [(101, 2), (102, 3), (103, 4)]"
    by code_simp
  show ?thesis
    using view_within_window [of 3 "[Add 100 (1 :: int), Add 101 2, Add 102 3, Add 103 4]"] e
    by simp
qed

text \<open>
  The order of the view. In every reachable state the loop from \<^verbatim>\<open>begin\<close> to
  \<^verbatim>\<open>end\<close> yields its samples in non-decreasing order of timestamp, and the samples it
  yields for one timestamp \<open>t\<close> are the last ones added with \<open>t\<close>, in the order of their
  insertion. Which samples it yields is the matter of the theorems that follow.
\<close>

theorem view_ordered:
  assumes "0 < W" and "W < 2 ^ 64"
  shows "\<exists>xs. get_all W (run W cs) = Some xs \<and>
           sorted_wrt (\<lambda>p q. fst p \<le> fst q) xs \<and>
           (\<forall>t. suffix (filter (\<lambda>p. fst p = t) xs) (filter (\<lambda>p. fst p = t) (added cs)))"
proof -
  let ?s = "run W cs"
  have inv: "bucket_inv W ?s" by (rule bucket_inv_run [OF assms(1)])
  obtain M m where sc: "scan_max ?s [0..<W] 0 0 = (M, m)" by (cases "scan_max ?s [0..<W] 0 0")
  have key: "unat (fst p) + W = (unat M + 1) + k" if "k < W" "p \<in> set (block W ?s k)" for k p
    using block_key [OF assms inv sc that] by simp
  have "sorted_wrt (\<lambda>p q. unat (fst p) + W \<le> unat (fst q) + W) (concat (map (block W ?s) [0..<W]))"
    by (rule keyed_concat_sorted) (rule key)
  then have srt: "sorted_wrt (\<lambda>p q. fst p \<le> fst q) (view W ?s)"
    by (simp add: view_blocks [OF assms(1)] word_le_nat_alt)
  have suf: "suffix (filter (\<lambda>p. fst p = t) (view W ?s)) (filter (\<lambda>p. fst p = t) (added cs))" for t
  proof -
    from view_filter [OF assms inv, of t]
    consider "filter (\<lambda>p. fst p = t) (view W ?s) = []"
      | j where "j < W" "?s ! j \<noteq> []" "fst (?s ! j ! 0) = t" "filter (\<lambda>p. fst p = t) (view W ?s) = ?s ! j"
      by blast
    then show ?thesis
    proof cases
      case 1
      then show ?thesis by simp
    next
      case 2
      then show ?thesis using bucket_suffix [OF assms(1) 2(1,2)] by simp
    qed
  qed
  show ?thesis using get_all_view [OF assms(1), of ?s] srt suf by simp
qed

theorem view_ordered_witness:
  "(0 :: nat) < 60 \<and> (60 :: nat) < 2 ^ 64
   \<and> get_all 60 (run 60 [Add 1000 (10 :: int), Add 1000 20, Add 1030 30])
       = Some [(1000, 10), (1000, 20), (1030, 30)]
   \<and> sorted_wrt (\<lambda>p q. fst p \<le> fst q) [(1000 :: 64 word, 10 :: int), (1000, 20), (1030, 30)]
   \<and> (\<forall>t. suffix (filter (\<lambda>p. fst p = t) [(1000 :: 64 word, 10 :: int), (1000, 20), (1030, 30)])
             (filter (\<lambda>p. fst p = t) (added [Add 1000 (10 :: int), Add 1000 20, Add 1030 30])))"
proof -
  have e: "get_all 60 (run 60 [Add 1000 (10 :: int), Add 1000 20, Add 1030 30])
             = Some [(1000, 10), (1000, 20), (1030, 30)]"
    by code_simp
  show ?thesis
    using view_ordered [of 60 "[Add 1000 (10 :: int), Add 1000 20, Add 1030 30]"] e
    by simp
qed

lemma view_live_set:
  assumes W: "0 < W" "W < 2 ^ 64" and inv: "bucket_inv W s"
    and sc: "scan_max s [0..<W] 0 0 = (M, m)" and wide: "W \<le> unat M"
  shows "set (view W s) = {p. (\<exists>i<W. p \<in> set (s ! i)) \<and> unat M < unat (fst p) + W}"
proof (intro set_eqI iffI)
  fix p assume "p \<in> set (view W s)"
  then obtain k where k: "k < W" "p \<in> set (block W s k)"
    by (auto simp: view_blocks [OF W(1)])
  have mW: "m < W" using scan_max_index [of 0 W "[0..<W]" s 0] sc W by simp
  have "p \<in> set (s ! ((m + Suc k) mod W))"
    by (rule block_subset [OF W(1) k(1) sc mW k(2)])
  moreover have "(m + Suc k) mod W < W" using W by simp
  moreover have "unat (fst p) + W = unat M + 1 + k"
    by (rule block_key [OF W inv sc k])
  ultimately show "p \<in> {p. (\<exists>i<W. p \<in> set (s ! i)) \<and> unat M < unat (fst p) + W}"
    by auto
next
  fix p assume "p \<in> {p. (\<exists>i<W. p \<in> set (s ! i)) \<and> unat M < unat (fst p) + W}"
  then obtain i where i: "i < W" "p \<in> set (s ! i)" and live: "unat M < unat (fst p) + W"
    by auto
  have ne: "s ! i \<noteq> []" using i by auto
  have mb: "s ! m \<noteq> [] \<and> fst (s ! m ! 0) = M \<and> m = unat M mod W \<and> m < W"
    by (rule max_bucket [OF W(1) inv sc i(1) ne])
  have le: "unat (fst p) \<le> unat M"
    using stored_le_max [OF inv sc i] by (simp add: word_le_nat_alt)
  have pi: "unat (fst p) mod W = i" by (rule bucket_invD(1) [OF inv i])
  define d where "d = unat M - unat (fst p)"
  define k where "k = W - 1 - d"
  have d: "d < W" "unat M = unat (fst p) + d" using le live by (auto simp: d_def)
  have k: "k < W" "Suc k + d = W" using d W by (auto simp: k_def)
  have "(m + Suc k) mod W = (unat M mod W + Suc k) mod W" using mb by simp
  also have "\<dots> = (unat M + Suc k) mod W" by (simp only: mod_add_left_eq)
  also have "unat M + Suc k = unat (fst p) + W" using d k by arith
  also have "(unat (fst p) + W) mod W = i" using pi by simp
  finally have j: "(m + Suc k) mod W = i" .
  have "p \<in> set (block W s k)"
  proof (cases "k < W - 1")
    case False
    then have "k = W - 1" using k by simp
    then have "i = m" using j mb W by simp
    then show ?thesis using False i sc by (simp add: block_def Let_def ctor_fields)
  next
    case True
    have fr: "fresh (M - word_of_nat W) q" if "q \<in> set (s ! i)" for q
    proof -
      have "fst q = fst (s ! i ! 0)" by (rule bucket_invD(2) [OF inv i(1) that])
      moreover have "fst p = fst (s ! i ! 0)" by (rule bucket_invD(2) [OF inv i])
      ultimately have "unat (fst q) = unat (fst p)" by simp
      then show ?thesis using wide live W(2) by (simp add: fresh_unat)
    qed
    then have tw: "takeWhile (fresh (M - word_of_nat W)) (s ! i) = s ! i"
      by (simp add: takeWhile_eq_all_conv)
    have "block W s k = takeWhile (fresh (M - word_of_nat W)) (s ! ((m + Suc k) mod W))"
      using True sc by (simp add: block_def Let_def ctor_fields)
    then have "block W s k = s ! i" by (simp only: j tw)
    then show ?thesis using i by simp
  qed
  then show "p \<in> set (view W s)"
    using k by (auto simp: view_blocks [OF W(1)])
qed

text \<open>
  The content of the view. When the newest timestamp \<open>M\<close> found by the constructor is
  at least \<open>W\<close>, so that \<^verbatim>\<open>max - TIMEOUT\<close> does not wrap around, the view of a reachable
  state yields exactly the stored samples whose timestamp is above \<open>M - W\<close>.
\<close>

theorem view_is_live_from_width:
  assumes "0 < W" and "W < 2 ^ 64"
    and "scan_max (run W cs) [0..<W] 0 0 = (M, m)" and "W \<le> unat M"
  shows "\<exists>xs. get_all W (run W cs) = Some xs \<and>
           set xs = {p. (\<exists>i<W. p \<in> set (run W cs ! i)) \<and> unat M < unat (fst p) + W}"
  using view_live_set [OF assms(1,2) bucket_inv_run [OF assms(1)] assms(3,4)]
  by (simp add: get_all_view [OF assms(1)])

text \<open>
  Claim C5. The view does not always yield the live samples. With \<open>W = 60\<close>, after
  \<^verbatim>\<open>add(1, 1)\<close>, \<^verbatim>\<open>add(2, 2)\<close> and \<^verbatim>\<open>add(3, 3)\<close> the samples (1, 1) and (2, 2)
  are stored and less than \<open>W\<close> seconds older than the newest one, but the loop from
  \<^verbatim>\<open>begin\<close> to \<^verbatim>\<open>end\<close> yields only (3, 3): \<^verbatim>\<open>max - TIMEOUT\<close> is \<open>3 - 60\<close>, which
  wraps around to \<open>2 ^ 64 - 57\<close>.
\<close>

theorem view_omits_live_samples:
  "run 60 [Add 1 (1 :: int), Add 2 2, Add 3 3] ! 1 = [(1, 1)]
   \<and> run 60 [Add 1 (1 :: int), Add 2 2, Add 3 3] ! 2 = [(2, 2)]
   \<and> get_all 60 (run 60 [Add 1 (1 :: int), Add 2 2, Add 3 3]) = Some [(3, 3)]"
  by code_simp

section \<open>Size\<close>

lemma foldl_add_sum:
  "foldl (\<lambda>sz i. sz + g i) a [0..<n] = a + (\<Sum>i<n. g i :: nat)"
  by (induction n) simp_all

lemma Stats_size_sum: "Stats_size W s = (\<Sum>i<W. length (s ! i))"
  by (simp add: Stats_size_def foldl_add_sum)

lemma Stats_size_sum_list:
  assumes "length s = W"
  shows "Stats_size W s = sum_list (map length s)"
proof -
  have "sum_list (map length s) = (\<Sum>i = 0..<length (map length s). map length s ! i)"
    by (rule sum_list_sum_nth)
  also have "\<dots> = (\<Sum>i<W. length (s ! i))"
    using assms by (simp add: lessThan_atLeast0)
  finally show ?thesis by (simp add: Stats_size_sum)
qed

lemma Stats_size_zero_iff: "Stats_size W s = 0 \<longleftrightarrow> (\<forall>i<W. s ! i = [])"
  by (auto simp: Stats_size_sum)

lemma adds_run: "adds W ps = run W (map (\<lambda>p. Add (fst p) (snd p)) ps)"
proof -
  have "foldl (add W) s ps = foldl (exec W) s (map (\<lambda>p. Add (fst p) (snd p)) ps)" for s :: "'a Stats"
    by (induction ps arbitrary: s) simp_all
  then show ?thesis by (simp add: adds_def run_def)
qed

lemma adds_snoc: "adds W (ps @ [p]) = add W (adds W ps) p"
  by (simp add: adds_def)

lemma survivors_snoc:
  "survivors W (ps @ [p]) =
     filter (\<lambda>q. \<not> (unat (fst p) mod W = unat (fst q) mod W \<and> fst p \<noteq> fst q)) (survivors W ps) @ [p]"
  by (induction ps) auto

lemma survivors_subset: "set (survivors W ps) \<subseteq> set ps"
  by (induction ps) auto

lemma adds_bucket:
  assumes W: "0 < W"
  shows "i < W \<Longrightarrow> adds W ps ! i = filter (\<lambda>q. unat (fst q) mod W = i) (survivors W ps)"
proof (induction ps arbitrary: i rule: rev_induct)
  case Nil
  then show ?case by (simp add: adds_def Stats_new_def)
next
  case (snoc p ps)
  let ?s = "adds W ps"
  let ?i0 = "unat (fst p) mod W"
  let ?keep = "\<lambda>q. \<not> (?i0 = unat (fst q) mod W \<and> fst p \<noteq> fst q)"
  have inv: "bucket_inv W ?s" unfolding adds_run by (rule bucket_inv_run [OF W])
  have len: "length ?s = W" using inv by (simp add: bucket_inv_def)
  have i0: "?i0 < W" using W by simp
  have flt: "filter (\<lambda>q. unat (fst q) mod W = i) (survivors W (ps @ [p]))
        = filter (\<lambda>q. unat (fst q) mod W = i \<and> ?keep q) (survivors W ps) @ (if ?i0 = i then [p] else [])"
    by (simp add: survivors_snoc conj_commute)
  show ?case
  proof (cases "i = ?i0")
    case False
    then have "add W ?s p ! i = ?s ! i" by (rule add_nth_other)
    moreover have "filter (\<lambda>q. unat (fst q) mod W = i \<and> ?keep q) (survivors W ps)
                     = filter (\<lambda>q. unat (fst q) mod W = i) (survivors W ps)"
      by (rule filter_cong) (use False in auto)
    ultimately show ?thesis using False snoc.IH [OF snoc.prems] flt by (simp add: adds_snoc)
  next
    case True
    have old: "?s ! ?i0 = filter (\<lambda>q. unat (fst q) mod W = ?i0) (survivors W ps)"
      by (rule snoc.IH [OF i0])
    have same: "add W ?s p ! ?i0 =
        (if ?s ! ?i0 \<noteq> [] \<and> fst p \<noteq> fst (?s ! ?i0 ! 0) then [] else ?s ! ?i0) @ [p]"
      by (rule add_nth_same) (use i0 len in simp)
    have uni: "\<forall>q\<in>set (?s ! ?i0). fst q = fst (?s ! ?i0 ! 0)"
      using bucket_invD(2) [OF inv i0] by blast
    have "filter (\<lambda>q. unat (fst q) mod W = ?i0 \<and> ?keep q) (survivors W ps)
            = filter (\<lambda>q. fst q = fst p) (filter (\<lambda>q. unat (fst q) mod W = ?i0) (survivors W ps))"
      by (auto intro: filter_cong)
    also have "\<dots> = filter (\<lambda>q. fst q = fst p) (?s ! ?i0)" by (simp only: old)
    also have "\<dots> = (if fst (?s ! ?i0 ! 0) = fst p then ?s ! ?i0 else [])"
      by (rule filter_uniform [OF uni])
    also have "\<dots> = (if ?s ! ?i0 \<noteq> [] \<and> fst p \<noteq> fst (?s ! ?i0 ! 0) then [] else ?s ! ?i0)"
      by auto
    finally show ?thesis using True flt same by (simp add: adds_snoc)
  qed
qed

lemma sum_length_filter:
  assumes "\<forall>q\<in>set xs. f q < (W :: nat)"
  shows "(\<Sum>i<W. length (filter (\<lambda>q. f q = i) xs)) = length xs"
  using assms
proof (induction xs)
  case Nil
  then show ?case by simp
next
  case (Cons x xs)
  have "(\<Sum>i<W. length (filter (\<lambda>q. f q = i) (x # xs)))
          = (\<Sum>i<W. (if f x = i then 1 else 0) + length (filter (\<lambda>q. f q = i) xs))"
    by (rule sum.cong) auto
  also have "\<dots> = (\<Sum>i<W. if f x = i then 1 else 0) + (\<Sum>i<W. length (filter (\<lambda>q. f q = i) xs))"
    by (rule sum.distrib)
  also have "(\<Sum>i<W. if f x = i then 1 else 0) = (1::nat)"
    using Cons.prems by (simp add: sum.delta')
  finally show ?case using Cons by simp
qed

lemma size_survivors:
  assumes "0 < W"
  shows "Stats_size W (adds W ps) = length (survivors W ps)"
proof -
  have "Stats_size W (adds W ps) = (\<Sum>i<W. length (filter (\<lambda>q. unat (fst q) mod W = i) (survivors W ps)))"
    unfolding Stats_size_sum by (rule sum.cong) (simp_all add: adds_bucket [OF assms])
  also have "\<dots> = length (survivors W ps)"
    by (rule sum_length_filter) (use assms in simp)
  finally show ?thesis .
qed

subsection \<open>The view against the size\<close>

lemma ring_shift_bij:
  assumes "0 < W"
  shows "bij_betw (\<lambda>k. (c + k) mod W) {..<W} {..<W :: nat}"
proof -
  have inj: "inj_on (\<lambda>k. (c + k) mod W) {..<W}"
  proof (rule inj_onI)
    fix x y assume xy: "x \<in> {..<W}" "y \<in> {..<W}" "(c + x) mod W = (c + y) mod W"
    then have "x mod W = y mod W" by (intro mod_add_cancel_nat [of c x W y])
    then show "x = y" using xy by simp
  qed
  have "(\<lambda>k. (c + k) mod W) ` {..<W} \<subseteq> {..<W}" using assms by auto
  then have "(\<lambda>k. (c + k) mod W) ` {..<W} = {..<W}"
    using inj by (intro endo_inj_surj) auto
  then show ?thesis using inj by (simp add: bij_betw_def)
qed

lemma ring_shift_sum:
  assumes "0 < (W :: nat)"
  shows "(\<Sum>k<W. g ((c + k) mod W)) = (\<Sum>i<W. g i :: nat)"
  by (rule sum.reindex_bij_betw [OF ring_shift_bij [OF assms]])

lemma block_length:
  assumes "0 < W" "k < W"
  shows "length (block W s k)
           \<le> length (s ! ((Suc (index_max (statsBucketsIterator_ctor W s)) + k) mod W))"
proof (cases "k < W - 1")
  case True
  then show ?thesis by (simp add: block_def Let_def length_takeWhile_le)
next
  case False
  then have "k = W - 1" using assms by simp
  moreover have "index_max (statsBucketsIterator_ctor W s) < W"
    by (rule ctor_index_max [OF assms(1)])
  ultimately show ?thesis using assms by (simp add: block_def Let_def)
qed

lemma view_length_le_size:
  assumes "0 < W"
  shows "length (view W s) \<le> Stats_size W s"
proof -
  let ?m = "index_max (statsBucketsIterator_ctor W s)"
  have "length (view W s) = (\<Sum>k<W. length (block W s k))"
    by (simp add: view_blocks [OF assms] length_concat comp_def
                  interv_sum_list_conv_sum_set_nat lessThan_atLeast0)
  also have "\<dots> \<le> (\<Sum>k<W. length (s ! ((Suc ?m + k) mod W)))"
    by (rule sum_mono) (use block_length [OF assms] in simp)
  also have "\<dots> = (\<Sum>i<W. length (s ! i))"
    by (rule ring_shift_sum [OF assms])
  finally show ?thesis by (simp add: Stats_size_sum)
qed

lemma view_empty_iff:
  assumes W: "0 < W" and inv: "bucket_inv W s"
  shows "view W s = [] \<longleftrightarrow> (\<forall>i<W. s ! i = [])"
proof
  assume "\<forall>i<W. s ! i = []"
  then have "Stats_size W s = 0" by (simp add: Stats_size_zero_iff)
  then show "view W s = []" using view_length_le_size [OF W, of s] by simp
next
  assume v: "view W s = []"
  show "\<forall>i<W. s ! i = []"
  proof (intro allI impI, rule ccontr)
    fix i assume i: "i < W" "s ! i \<noteq> []"
    obtain M m where sc: "scan_max s [0..<W] 0 0 = (M, m)" by (cases "scan_max s [0..<W] 0 0")
    have "s ! m \<noteq> []" using max_bucket [OF W inv sc i] by blast
    then have "view W s \<noteq> []" using sc by (simp add: view_def Let_def ctor_fields)
    then show False using v by simp
  qed
qed

section \<open>The percentile of an empty container\<close>

lemma get_p_out_of_range_iff:
  assumes "0 < W"
  shows "get_p W s q = Some (Inl out_of_range) \<longleftrightarrow> Stats_size W s = 0"
  by (auto simp: get_p_def Let_def get_all_view [OF assms])

lemma get_p_returns:
  assumes "0 < W"
  shows "\<exists>r. get_p W s q = Some r"
  by (auto simp: get_p_def Let_def get_all_view [OF assms])

lemma Stats_begin_returns:
  assumes "0 < W"
  shows "\<exists>b. Stats_begin W s = Some b"
proof -
  have "Option.bind (Stats_begin W s) (\<lambda>b. traverse W s b (Stats_end W s)) = Some (view W s)"
    using get_all_view [OF assms, of s] by (simp add: get_all_def)
  then show ?thesis by (cases "Stats_begin W s") auto
qed

text \<open>
  Claim C7. In every reachable state and for every \<open>q\<close>, \<^verbatim>\<open>get_p\<close> throws
  \<^verbatim>\<open>out_of_range\<close> exactly when the view is empty, which is exactly when every bucket
  is empty. \<^verbatim>\<open>get_p\<close> is a \<^verbatim>\<open>const\<close> member: it returns no new state. \<^verbatim>\<open>get_p\<close>,
  \<^verbatim>\<open>begin\<close> and the loop over the view always return; \<^verbatim>\<open>add\<close>, \<^verbatim>\<open>size\<close> and
  \<^verbatim>\<open>clear\<close> are total functions without a failure value.
\<close>

theorem get_p_empty_iff:
  assumes "0 < W"
  shows "(get_p W (run W cs) q = Some (Inl out_of_range)
            \<longleftrightarrow> get_all W (run W cs) = Some [])
         \<and> (get_all W (run W cs) = Some [] \<longleftrightarrow> (\<forall>i<W. run W cs ! i = []))
         \<and> (\<exists>r. get_p W (run W cs) q = Some r)
         \<and> (\<exists>b. Stats_begin W (run W cs) = Some b)
         \<and> (\<exists>xs. get_all W (run W cs) = Some xs)"
proof -
  let ?s = "run W cs"
  have inv: "bucket_inv W ?s" by (rule bucket_inv_run [OF assms])
  have v: "get_all W ?s = Some [] \<longleftrightarrow> (\<forall>i<W. ?s ! i = [])"
    by (simp add: get_all_view [OF assms] view_empty_iff [OF assms inv])
  have "get_p W ?s q = Some (Inl out_of_range) \<longleftrightarrow> (\<forall>i<W. ?s ! i = [])"
    by (simp add: get_p_out_of_range_iff [OF assms] Stats_size_zero_iff)
  then show ?thesis
    using v get_p_returns [OF assms, of ?s q] Stats_begin_returns [OF assms, of ?s]
      get_all_view [OF assms, of ?s] by simp
qed

theorem get_p_empty_iff_witness:
  "(0 :: nat) < 60
   \<and> get_p 60 (run 60 ([] :: int call list)) 50 = Some (Inl out_of_range)
   \<and> get_all 60 (run 60 ([] :: int call list)) = Some []
   \<and> get_p 60 (run 60 [Add 500 (42 :: int), Clear]) 50 = Some (Inl out_of_range)
   \<and> get_p 60 (run 60 [Add 500 (42 :: int)]) 50 \<noteq> Some (Inl out_of_range)
   \<and> get_all 60 (run 60 [Add 500 (42 :: int)]) \<noteq> Some []"
proof -
  have e: "get_all 60 (run 60 ([] :: int call list)) = Some []"
    "get_all 60 (run 60 [Add 500 (42 :: int), Clear]) = Some []"
    "get_all 60 (run 60 [Add 500 (42 :: int)]) = Some [(500, 42)]"
    by code_simp+
  show ?thesis
    using get_p_empty_iff [of 60 "[] :: int call list" 50]
      get_p_empty_iff [of 60 "[Add 500 (42 :: int), Clear]" 50]
      get_p_empty_iff [of 60 "[Add 500 (42 :: int)]" 50] e
    by simp
qed

section \<open>What size counts\<close>

text \<open>
  Claim C8. After any sequence of \<^verbatim>\<open>add\<close> calls on a new container, \<^verbatim>\<open>size()\<close> is the
  sum of the bucket lengths, and it is the number of calls that no later call into the
  same bucket with another timestamp has evicted. The view never has more samples than
  that count; it can have fewer.
\<close>

theorem size_counts_unevicted_adds:
  assumes "0 < W"
  shows "Stats_size W (adds W ps) = sum_list (map length (adds W ps))
         \<and> Stats_size W (adds W ps) = length (survivors W ps)
         \<and> (\<exists>xs. get_all W (adds W ps) = Some xs \<and> length xs \<le> Stats_size W (adds W ps))"
proof -
  have "bucket_inv W (adds W ps)" unfolding adds_run by (rule bucket_inv_run [OF assms])
  then have "length (adds W ps) = W" by (simp add: bucket_inv_def)
  then have "Stats_size W (adds W ps) = sum_list (map length (adds W ps))"
    by (rule Stats_size_sum_list)
  then show ?thesis
    using size_survivors [OF assms, of ps] view_length_le_size [OF assms, of "adds W ps"]
      get_all_view [OF assms, of "adds W ps"] by simp
qed

theorem size_counts_unevicted_adds_witness:
  "(0 :: nat) < 60
   \<and> Stats_size 60 (adds 60 [(1000, 5 :: int), (1100, 7), (1060, 9), (1200, 1)]) = 3
   \<and> survivors 60 [(1000, 5 :: int), (1100, 7), (1060, 9), (1200, 1)] = [(1100, 7), (1060, 9), (1200, 1)]
   \<and> sum_list (map length (adds 60 [(1000, 5 :: int), (1100, 7), (1060, 9), (1200, 1)])) = 3
   \<and> get_all 60 (adds 60 [(1000, 5 :: int), (1100, 7), (1060, 9), (1200, 1)]) = Some [(1200, 1)]"
proof -
  have e: "survivors 60 [(1000, 5 :: int), (1100, 7), (1060, 9), (1200, 1)] = [(1100, 7), (1060, 9), (1200, 1)]"
    "get_all 60 (adds 60 [(1000, 5 :: int), (1100, 7), (1060, 9), (1200, 1)]) = Some [(1200, 1)]"
    by code_simp+
  show ?thesis
    using size_counts_unevicted_adds [of 60 "[(1000, 5 :: int), (1100, 7), (1060, 9), (1200, 1)]"] e
    by simp
qed

section \<open>The percentile on concrete containers\<close>

lemma survivors_same_timestamp:
  "\<forall>q\<in>set ps. fst q = t \<Longrightarrow> survivors W ps = ps"
  by (induction ps) auto

lemma get_p_100:
  assumes "0 < W" "0 < Stats_size W s" "Stats_size W s * 100 + 99 < 2 ^ 64"
  shows "get_p W s 100 = Some (Inl past_the_end)"
proof -
  let ?sz = "Stats_size W s"
  have "int (?sz * 100 + 99) < int (2 ^ 64)" using assms(3) by (simp only: of_nat_less_iff)
  then have "int ?sz * 100 + 99 < 2 ^ 64" by simp
  then have "(int ?sz * 100 + 99) mod 2 ^ 64 = int ?sz * 100 + 99" by simp
  then have "nat ((int ?sz * 100 + 99) mod 2 ^ 64 div 100) = ?sz" by simp
  then show ?thesis
    using assms(2) by (simp add: get_p_def Let_def get_all_view [OF assms(1)])
qed

text \<open>
  Claim C1. \<^verbatim>\<open>get_p\<close> does not clamp the rank. On the samples (1000, 10), (1000, 20),
  (1030, 30), \<^verbatim>\<open>get_p70\<close> computes index 3 for a vector of 3 elements, and on 100
  samples at one timestamp \<^verbatim>\<open>get_p(100)\<close> computes index 100: both read
  \<^verbatim>\<open>v[index]\<close> past the end of \<^verbatim>\<open>v\<close>.
\<close>

theorem get_p_reads_past_the_end:
  "get_p70 60 (adds 60 [(1000, 10 :: int), (1000, 20), (1030, 30)]) = Some (Inl past_the_end)
   \<and> get_p 60 (adds 60 (map (\<lambda>i. (2000, int i)) [0..<100])) 100 = Some (Inl past_the_end)"
proof
  show "get_p70 60 (adds 60 [(1000, 10 :: int), (1000, 20), (1030, 30)]) = Some (Inl past_the_end)"
    by code_simp
  have "survivors 60 (map (\<lambda>i. (2000 :: 64 word, int i)) [0..<100]) = map (\<lambda>i. (2000, int i)) [0..<100]"
    by (rule survivors_same_timestamp [where t = 2000]) simp
  then have "Stats_size 60 (adds 60 (map (\<lambda>i. (2000, int i)) [0..<100])) = 100"
    by (simp add: size_survivors)
  then show "get_p 60 (adds 60 (map (\<lambda>i. (2000, int i)) [0..<100])) 100 = Some (Inl past_the_end)"
    by (intro get_p_100) simp_all
qed

text \<open>
  Claim C2. \<^verbatim>\<open>get_p\<close> sizes its vector with \<^verbatim>\<open>size()\<close>, which counts stale samples.
  After \<^verbatim>\<open>add(1000, 5)\<close> and \<^verbatim>\<open>add(1100, 7)\<close> with \<open>W = 60\<close> the view yields only
  (1100, 7), the vector has two elements, 7 and the initial value 0, and
  \<^verbatim>\<open>get_p(0)\<close> returns 0, which no sample carries.
\<close>

theorem get_p_pads_with_zero:
  "Stats_size 60 (adds 60 [(1000, 5 :: int), (1100, 7)]) = 2
   \<and> get_all 60 (adds 60 [(1000, 5 :: int), (1100, 7)]) = Some [(1100, 7)]
   \<and> get_p 60 (adds 60 [(1000, 5 :: int), (1100, 7)]) 0 = Some (Inr 0)"
  by code_simp

text \<open>
  Claim C9. With \<open>W = 60\<close>, after adding the values 1 to 10 at timestamp 1000,
  \<^verbatim>\<open>size()\<close> is 10, the view yields the values 1 to 10 in that order, and
  \<^verbatim>\<open>get_p(50)\<close> returns 6, the element of rank \<open>(10 * 50 + 99) div 100 = 5\<close>.
\<close>

theorem ten_samples_same_second:
  "Stats_size 60 (adds 60 (map (Pair 1000) [1, 2, 3, 4, 5, 6, 7, 8, 9, 10 :: int])) = 10
   \<and> map_option (map snd) (get_all 60 (adds 60 (map (Pair 1000) [1, 2, 3, 4, 5, 6, 7, 8, 9, 10 :: int])))
       = Some [1, 2, 3, 4, 5, 6, 7, 8, 9, 10]
   \<and> get_p 60 (adds 60 (map (Pair 1000) [1, 2, 3, 4, 5, 6, 7, 8, 9, 10 :: int])) 50 = Some (Inr 6)
   \<and> nat ((int 10 * 50 + 99) mod 2 ^ 64 div 100) = 5"
  by code_simp

section \<open>The view below one window width\<close>

text \<open>
  Claim C3. With \<open>W = 60\<close>, after \<^verbatim>\<open>add(0, 1)\<close> and \<^verbatim>\<open>add(59, 2)\<close> the sample
  (0, 1) is still stored in bucket 0, but the view yields only (59, 2):
  \<^verbatim>\<open>max - TIMEOUT\<close> is \<open>59 - 60\<close>, which wraps around to \<open>2 ^ 64 - 1\<close>.
\<close>

theorem view_drops_sample_below_width:
  "adds 60 [(0, 1 :: int), (59, 2)] ! 0 = [(0, 1)]
   \<and> get_all 60 (adds 60 [(0, 1 :: int), (59, 2)]) = Some [(59, 2)]"
  by code_simp

section \<open>Two samples at the ends of the window\<close>

lemma ring_index_neq:
  assumes "j < W" "k < W" "j \<noteq> k"
  shows "(i + j) mod W \<noteq> (i + k) mod (W :: nat)"
proof
  assume "(i + j) mod W = (i + k) mod W"
  then have "j mod W = k mod W" by (rule mod_add_cancel_nat)
  then show False using assms by simp
qed

lemma ring_all_empty:
  assumes "i < W" "\<forall>k<n. s ! ((i + k) mod W) = []"
  shows "ring W s tmin i n = []"
  using assms by (simp add: ring_concat)

lemma ring_snoc:
  assumes "i < W"
  shows "ring W s tmin i (Suc n) = ring W s tmin i n @ takeWhile (fresh tmin) (s ! ((i + n) mod W))"
  unfolding ring_concat [OF assms] by simp

lemma scan_max_reachable:
  assumes W: "0 < W" and inv: "bucket_inv W s" and i: "i < W" and p: "p \<in> set (s ! i)"
    and top: "\<forall>j<W. \<forall>q\<in>set (s ! j). fst q \<le> fst p"
  shows "scan_max s [0..<W] 0 0 = (fst p, i)"
proof -
  obtain M m where sc: "scan_max s [0..<W] 0 0 = (M, m)" by (cases "scan_max s [0..<W] 0 0")
  have ne: "s ! i \<noteq> []" using p by auto
  have mb: "s ! m \<noteq> [] \<and> fst (s ! m ! 0) = M \<and> m = unat M mod W \<and> m < W"
    by (rule max_bucket [OF W inv sc i ne])
  then have "s ! m \<noteq> []" by blast
  then have "s ! m ! 0 \<in> set (s ! m)" by simp
  then have "fst (s ! m ! 0) \<le> fst p" using top mb by blast
  moreover have "fst (s ! m ! 0) = M" using mb by blast
  moreover have "fst p \<le> M" by (rule stored_le_max [OF inv sc i p])
  ultimately have M: "M = fst p" by simp
  have "unat (fst p) mod W = i" by (rule bucket_invD(1) [OF inv i p])
  moreover have "m = unat M mod W" using mb by blast
  ultimately have "m = i" using M by simp
  then show ?thesis using sc M by simp
qed

lemma view_eq:
  assumes "scan_max s [0..<W] 0 0 = (M, m)"
  shows "view W s = ring W s (M - word_of_nat W) (next_index W m) (W - 1) @ s ! m"
  using assms by (simp add: view_def Let_def ctor_fields)

lemma two_buckets_empty:
  assumes "i < W" "k < n" "n + 2 \<le> (W :: nat)"
  shows "(i + 1 + k) mod W \<noteq> i \<and> (i + 1 + k) mod W \<noteq> (i + (W - 1)) mod W"
proof -
  have "(i + (1 + k)) mod W \<noteq> (i + 0) mod W"
    by (rule ring_index_neq) (use assms in auto)
  moreover have "(i + (1 + k)) mod W \<noteq> (i + (W - 1)) mod W"
    by (rule ring_index_neq) (use assms in auto)
  ultimately show ?thesis using assms by (simp add: add.assoc)
qed

text \<open>
  When the first timestamp is at least 1 and \<open>t + W\<close> is still a timestamp, the view
  after \<^verbatim>\<open>add(t, a)\<close> and \<^verbatim>\<open>add(t + W - 1, b)\<close> on a new container yields both
  samples, and after \<^verbatim>\<open>add(t + W, c)\<close> it yields \<open>b\<close> and \<open>c\<close>.
\<close>

theorem stale_tail_from_one:
  assumes W: "2 \<le> W" and t1: "1 \<le> unat t" and nov: "unat t + W < 2 ^ 64"
  shows "get_all W (adds W [(t, a), (t + word_of_nat W - 1, b)])
           = Some [(t, a), (t + word_of_nat W - 1, b)]
         \<and> get_all W (adds W [(t, a), (t + word_of_nat W - 1, b), (t + word_of_nat W, c)])
           = Some [(t + word_of_nat W - 1, b), (t + word_of_nat W, c)]"
proof -
  let ?tb = "t + word_of_nat W - 1" and ?tc = "t + word_of_nat W"
  let ?ia = "unat t mod W" and ?ib = "(unat t mod W + (W - 1)) mod W"
  let ?s2 = "adds W [(t, a), (?tb, b)]"
  let ?s3 = "adds W [(t, a), (?tb, b), (?tc, c)]"
  have W0: "0 < W" and W64: "W < 2 ^ 64" using W nov by auto
  have utc: "unat ?tc = unat t + W" by (rule unat_plus_W [OF nov])
  then have "?tc \<noteq> 0" using W0 by (metis add_is_0 less_numeral_extra(3) unat_0)
  then have utb: "unat ?tb = unat t + W - 1" using utc by (simp add: unat_minus_one)
  have ia: "?ia < W" and ib: "?ib < W" using W0 by auto
  have ic: "unat ?tc mod W = ?ia" using utc by simp
  have ibb: "unat ?tb mod W = ?ib"
  proof -
    have "unat ?tb = unat t + (W - 1)" using utb W0 by simp
    then show ?thesis by (simp only: mod_add_left_eq)
  qed
  have ab: "?ia \<noteq> ?ib"
    using ring_index_neq [of 0 W "W - 1" ?ia] W ia by simp
  have tab: "t < ?tb" "?tb < ?tc" "t \<noteq> ?tc"
    using utb utc W by (auto simp: word_less_nat_alt)
  have s2: "?s2 = (replicate W [])[?ia := [(t, a)], ?ib := [(?tb, b)]]"
    using ia ib ab ibb by (simp add: adds_def add_def Stats_new_def Let_def)
  have s3: "?s3 = (replicate W [])[?ia := [(?tc, c)], ?ib := [(?tb, b)]]"
  proof -
    have "?s3 = add W ?s2 (?tc, c)" by (simp add: adds_def)
    also have "\<dots> = (replicate W [])[?ia := [(t, a)], ?ib := [(?tb, b)], ?ia := [(?tc, c)]]"
      using ia ib ab ic tab(3) by (simp add: s2 add_def Let_def)
    also have "\<dots> = (replicate W [])[?ia := [(t, a)], ?ia := [(?tc, c)], ?ib := [(?tb, b)]]"
      by (rule list_update_swap) (use ab in simp)
    also have "\<dots> = (replicate W [])[?ia := [(?tc, c)], ?ib := [(?tb, b)]]"
      by (simp only: list_update_overwrite)
    finally show ?thesis .
  qed
  have inv2: "bucket_inv W ?s2" unfolding adds_run by (rule bucket_inv_run [OF W0])
  have inv3: "bucket_inv W ?s3" unfolding adds_run by (rule bucket_inv_run [OF W0])
  have b2: "?s2 ! ?ia = [(t, a)]" "?s2 ! ?ib = [(?tb, b)]"
    and e2: "\<And>i. i < W \<Longrightarrow> i \<noteq> ?ia \<Longrightarrow> i \<noteq> ?ib \<Longrightarrow> ?s2 ! i = []"
    using ia ib ab by (simp_all add: s2)
  have b3: "?s3 ! ?ia = [(?tc, c)]" "?s3 ! ?ib = [(?tb, b)]"
    and e3: "\<And>i. i < W \<Longrightarrow> i \<noteq> ?ia \<Longrightarrow> i \<noteq> ?ib \<Longrightarrow> ?s3 ! i = []"
    using ia ib ab by (simp_all add: s3)
  have nxb: "next_index W ?ib = ?ia"
  proof -
    have "next_index W ?ib = (unat t mod W + ((W - 1) + 1)) mod W"
      by (simp only: next_index_def mod_add_left_eq add.assoc)
    then show ?thesis using W0 by simp
  qed
  have nxa: "next_index W ?ia < W" by (rule next_index_less [OF W0])
  have mid: "(next_index W ?ia + k) mod W \<noteq> ?ia \<and> (next_index W ?ia + k) mod W \<noteq> ?ib"
    if "k < W - 2" for k
    using two_buckets_empty [OF ia that] W by (simp add: next_index_add)
  have last: "(next_index W ?ia + (W - 2)) mod W = ?ib"
  proof -
    have "(next_index W ?ia + (W - 2)) mod W = (?ia + Suc (W - 2)) mod W"
      by (rule next_index_add)
    also have "Suc (W - 2) = W - 1" using W by simp
    finally show ?thesis .
  qed
  have sc2: "scan_max ?s2 [0..<W] 0 0 = (?tb, ?ib)"
  proof -
    have "scan_max ?s2 [0..<W] 0 0 = (fst (?tb, b), ?ib)"
    proof (rule scan_max_reachable [OF W0 inv2 ib])
      show "(?tb, b) \<in> set (?s2 ! ?ib)" unfolding b2 by simp
      show "\<forall>j<W. \<forall>q\<in>set (?s2 ! j). fst q \<le> fst (?tb, b)"
      proof (intro allI impI ballI)
        fix j q assume "j < W" "q \<in> set (?s2 ! j)"
        then have "q = (t, a) \<or> q = (?tb, b)"
          using b2 e2 [of j] by (cases "j = ?ia"; cases "j = ?ib") auto
        then show "fst q \<le> fst (?tb, b)" using tab by auto
      qed
    qed
    then show ?thesis by simp
  qed
  have fr2: "fresh (?tb - word_of_nat W) (t, a)"
  proof -
    have "t \<noteq> 0" using t1 by auto
    then have "unat (t - 1) = unat t - 1" by (rule unat_minus_one)
    moreover have "?tb - word_of_nat W = t - 1" by simp
    ultimately show ?thesis by (simp add: fresh_def word_less_nat_alt)
  qed
  have r2: "ring W ?s2 (?tb - word_of_nat W) ?ia (W - 1) = [(t, a)]"
  proof -
    have "W - 1 = Suc (W - 2)" using W by simp
    moreover have "ring W ?s2 (?tb - word_of_nat W) (next_index W ?ia) (W - 2) = []"
    proof (rule ring_all_empty [OF nxa], intro allI impI)
      fix k assume "k < W - 2"
      then show "?s2 ! ((next_index W ?ia + k) mod W) = []"
        using mid [of k] W0 by (intro e2) auto
    qed
    ultimately have "ring W ?s2 (?tb - word_of_nat W) ?ia (W - 1)
                       = takeWhile (fresh (?tb - word_of_nat W)) (?s2 ! ?ia)"
      by simp
    then show ?thesis unfolding b2 using fr2 by simp
  qed
  have v2: "view W ?s2 = [(t, a), (?tb, b)]"
    unfolding view_eq [OF sc2] nxb r2 b2 by simp
  have sc3: "scan_max ?s3 [0..<W] 0 0 = (?tc, ?ia)"
  proof -
    have "scan_max ?s3 [0..<W] 0 0 = (fst (?tc, c), ?ia)"
    proof (rule scan_max_reachable [OF W0 inv3 ia])
      show "(?tc, c) \<in> set (?s3 ! ?ia)" unfolding b3 by simp
      show "\<forall>j<W. \<forall>q\<in>set (?s3 ! j). fst q \<le> fst (?tc, c)"
      proof (intro allI impI ballI)
        fix j q assume "j < W" "q \<in> set (?s3 ! j)"
        then have "q = (?tc, c) \<or> q = (?tb, b)"
          using b3 e3 [of j] by (cases "j = ?ia"; cases "j = ?ib") auto
        then show "fst q \<le> fst (?tc, c)" using tab by auto
      qed
    qed
    then show ?thesis by simp
  qed
  have fr3: "fresh (?tc - word_of_nat W) (?tb, b)"
  proof -
    have "?tc - word_of_nat W = t" by simp
    moreover have "\<not> ?tb < t" using tab(1) by simp
    ultimately show ?thesis by (simp add: fresh_def)
  qed
  have r3: "ring W ?s3 (?tc - word_of_nat W) (next_index W ?ia) (W - 1) = [(?tb, b)]"
  proof -
    have "W - 1 = Suc (W - 2)" using W by simp
    moreover have "ring W ?s3 (?tc - word_of_nat W) (next_index W ?ia) (W - 2) = []"
    proof (rule ring_all_empty [OF nxa], intro allI impI)
      fix k assume "k < W - 2"
      then show "?s3 ! ((next_index W ?ia + k) mod W) = []"
        using mid [of k] W0 by (intro e3) auto
    qed
    ultimately have "ring W ?s3 (?tc - word_of_nat W) (next_index W ?ia) (W - 1)
                       = takeWhile (fresh (?tc - word_of_nat W)) (?s3 ! ?ib)"
      by (simp only: ring_snoc [OF nxa] last append_Nil)
    then show ?thesis unfolding b3 using fr3 by simp
  qed
  have v3: "view W ?s3 = [(?tb, b), (?tc, c)]"
    unfolding view_eq [OF sc3] r3 b3 by simp
  show ?thesis using v2 v3 by (simp add: get_all_view [OF W0])
qed

end
